theory Spec2Isabelle
  imports Complex_Main "HOL-Library.Log_Nat" "HOL-Library.AList"
begin

section \<open>Python values: exceptions, integers and binary64 floats\<close>

text \<open>
  The pricing code of \<^verbatim>\<open>cardex/dexs/amm/amm_types.py\<close> works on Python's unbounded
  integers (\<^typ>\<open>int\<close>) and, through the true division \<^verbatim>\<open>/\<close>, on Python floats, which
  are IEEE 754 binary64 numbers. Every exception the code can raise is a value of
  \<open>error\<close>; a computation returns \<open>error + 'a\<close> with \<open>Inl\<close> for the exception.
\<close>

datatype error =
    ValueError string
  | NotImplementedError string
  | ZeroDivisionError
  | OverflowError
  | NotSingleUnit

definition bindE :: "error + 'a \<Rightarrow> ('a \<Rightarrow> error + 'b) \<Rightarrow> error + 'b" where
  "bindE m f = (case m of Inl e \<Rightarrow> Inl e | Inr x \<Rightarrow> f x)"

text \<open>
  A binary64 value is a finite rational, an infinity or a NaN. The two zeros are not
  told apart: the code never observes the sign of a zero (a division by either zero
  raises, and \<^verbatim>\<open>abs\<close>, \<^verbatim>\<open>int\<close> and comparisons ignore it).
\<close>

datatype double = Finite rat | PInf | NInf | NaN

definition pow2 :: "int \<Rightarrow> rat" where
  "pow2 e = (if 0 \<le> e then 2 ^ nat e else 1 / 2 ^ nat (- e))"

text \<open>\<open>floor_log2 x\<close> is the \<open>e\<close> with \<open>2^e \<le> x < 2^(e+1)\<close>, for \<open>x > 0\<close>.\<close>

definition floor_log2 :: "rat \<Rightarrow> int" where
  "floor_log2 x =
     (let (p, q) = quotient_of x; k = bitlen p - bitlen q
      in if (if 0 \<le> k then q * 2 ^ nat k \<le> p else q \<le> p * 2 ^ nat (- k)) then k else k - 1)"

definition round_half_even :: "rat \<Rightarrow> int" where
  "round_half_even y =
     (let f = \<lfloor>y\<rfloor>; r = y - of_int f
      in if r < 1 / 2 then f else if 1 / 2 < r then f + 1 else if even f then f else f + 1)"

text \<open>
  Rounding to nearest, ties to even, into binary64: 53 significant bits, least normal
  exponent \<open>-1022\<close> (below it the spacing stays \<open>2^-1074\<close>), overflow to an infinity
  from \<open>2^1024\<close> on.
\<close>

definition round_double :: "rat \<Rightarrow> double" where
  "round_double x =
     (if x = 0 then Finite 0
      else let e = max (floor_log2 \<bar>x\<bar>) (- 1022);
               ulp = pow2 (e - 52);
               v = of_int (round_half_even (x / ulp)) * ulp
           in if 2 ^ 1024 \<le> \<bar>v\<bar> then (if 0 < x then PInf else NInf) else Finite v)"

fun double_sign :: "double \<Rightarrow> int" where
  "double_sign (Finite v) = (if v < 0 then - 1 else if v = 0 then 0 else 1)"
| "double_sign PInf = 1"
| "double_sign NInf = - 1"
| "double_sign NaN = 0"

definition inf_of_sign :: "int \<Rightarrow> double" where
  "inf_of_sign s = (if s = 0 then NaN else if 0 < s then PInf else NInf)"

fun fneg :: "double \<Rightarrow> double" where
  "fneg (Finite v) = Finite (- v)"
| "fneg PInf = NInf"
| "fneg NInf = PInf"
| "fneg NaN = NaN"

fun fabs :: "double \<Rightarrow> double" where
  "fabs (Finite v) = Finite \<bar>v\<bar>"
| "fabs PInf = PInf"
| "fabs NInf = PInf"
| "fabs NaN = NaN"

fun fadd :: "double \<Rightarrow> double \<Rightarrow> double" where
  "fadd NaN b = NaN"
| "fadd a NaN = NaN"
| "fadd (Finite x) (Finite y) = round_double (x + y)"
| "fadd PInf NInf = NaN"
| "fadd NInf PInf = NaN"
| "fadd PInf b = PInf"
| "fadd NInf b = NInf"
| "fadd a PInf = PInf"
| "fadd a NInf = NInf"

definition fsub :: "double \<Rightarrow> double \<Rightarrow> double" where
  "fsub a b = fadd a (fneg b)"

fun fmul :: "double \<Rightarrow> double \<Rightarrow> double" where
  "fmul NaN b = NaN"
| "fmul a NaN = NaN"
| "fmul (Finite x) (Finite y) = round_double (x * y)"
| "fmul a b = inf_of_sign (double_sign a * double_sign b)"

text \<open>IEEE division by a divisor that is not zero.\<close>

fun fdiv :: "double \<Rightarrow> double \<Rightarrow> double" where
  "fdiv NaN b = NaN"
| "fdiv a NaN = NaN"
| "fdiv (Finite x) (Finite y) = round_double (x / y)"
| "fdiv (Finite x) b = Finite 0"
| "fdiv a (Finite y) = inf_of_sign (double_sign a * double_sign (Finite y))"
| "fdiv a b = NaN"

text \<open>
  \<^verbatim>\<open>float(n)\<close> as the arithmetic operators apply it to an \<^verbatim>\<open>int\<close> operand: correctly
  rounded, \<^verbatim>\<open>OverflowError\<close> when the integer is too large.
\<close>

definition int_to_double :: "int \<Rightarrow> error + double" where
  "int_to_double n =
     (case round_double (of_int n) of Finite v \<Rightarrow> Inr (Finite v) | _ \<Rightarrow> Inl OverflowError)"

text \<open>
  \<^verbatim>\<open>a / b\<close> on two \<^verbatim>\<open>int\<close>s: \<^verbatim>\<open>ZeroDivisionError\<close> for \<open>b = 0\<close>, otherwise the
  correctly rounded quotient, \<^verbatim>\<open>OverflowError\<close> when it is too large for a float.
\<close>

definition int_true_divide :: "int \<Rightarrow> int \<Rightarrow> error + double" where
  "int_true_divide a b =
     (if b = 0 then Inl ZeroDivisionError
      else case round_double (of_int a / of_int b) of
             Finite v \<Rightarrow> Inr (Finite v)
           | _ \<Rightarrow> Inl OverflowError)"

text \<open>\<^verbatim>\<open>a // b\<close> on two \<^verbatim>\<open>int\<close>s: floor division, as \<open>div\<close> on \<^typ>\<open>int\<close>.\<close>

definition int_floor_divide :: "int \<Rightarrow> int \<Rightarrow> error + int" where
  "int_floor_divide a b = (if b = 0 then Inl ZeroDivisionError else Inr (a div b))"

text \<open>\<^verbatim>\<open>a / b\<close> on two floats raises for a zero divisor before anything else.\<close>

definition float_div :: "double \<Rightarrow> double \<Rightarrow> error + double" where
  "float_div a b = (if b = Finite 0 then Inl ZeroDivisionError else Inr (fdiv a b))"

text \<open>
  \<^verbatim>\<open>int(x)\<close> on a float truncates towards zero and raises on an infinity
  (\<^verbatim>\<open>OverflowError\<close>) or a NaN (\<^verbatim>\<open>ValueError\<close>).
\<close>

definition trunc_rat :: "rat \<Rightarrow> int" where
  "trunc_rat v = (if 0 \<le> v then \<lfloor>v\<rfloor> else - \<lfloor>- v\<rfloor>)"

fun double_to_int :: "double \<Rightarrow> error + int" where
  "double_to_int (Finite v) = Inr (trunc_rat v)"
| "double_to_int NaN = Inl (ValueError ''cannot convert float NaN to integer'')"
| "double_to_int a = Inl OverflowError"

text \<open>
  A Python number is an \<^verbatim>\<open>int\<close> or a \<^verbatim>\<open>float\<close>; a binary operator on mixed operands
  converts the \<^verbatim>\<open>int\<close> one first (left operand before right).
\<close>

datatype pynum = PyInt int | PyFloat double

fun to_double :: "pynum \<Rightarrow> error + double" where
  "to_double (PyInt n) = int_to_double n"
| "to_double (PyFloat a) = Inr a"

fun py_add :: "pynum \<Rightarrow> pynum \<Rightarrow> error + pynum" where
  "py_add (PyInt m) (PyInt n) = Inr (PyInt (m + n))"
| "py_add x y = bindE (to_double x) (\<lambda>a. bindE (to_double y) (\<lambda>b. Inr (PyFloat (fadd a b))))"

fun py_sub :: "pynum \<Rightarrow> pynum \<Rightarrow> error + pynum" where
  "py_sub (PyInt m) (PyInt n) = Inr (PyInt (m - n))"
| "py_sub x y = bindE (to_double x) (\<lambda>a. bindE (to_double y) (\<lambda>b. Inr (PyFloat (fsub a b))))"

fun py_mul :: "pynum \<Rightarrow> pynum \<Rightarrow> error + pynum" where
  "py_mul (PyInt m) (PyInt n) = Inr (PyInt (m * n))"
| "py_mul x y = bindE (to_double x) (\<lambda>a. bindE (to_double y) (\<lambda>b. Inr (PyFloat (fmul a b))))"

fun py_truediv :: "pynum \<Rightarrow> pynum \<Rightarrow> error + pynum" where
  "py_truediv (PyInt m) (PyInt n) = bindE (int_true_divide m n) (\<lambda>r. Inr (PyFloat r))"
| "py_truediv x y =
     bindE (to_double x) (\<lambda>a. bindE (to_double y) (\<lambda>b.
       bindE (float_div a b) (\<lambda>r. Inr (PyFloat r))))"

fun py_abs :: "pynum \<Rightarrow> pynum" where
  "py_abs (PyInt n) = PyInt \<bar>n\<bar>"
| "py_abs (PyFloat a) = PyFloat (fabs a)"

text \<open>\<^verbatim>\<open>x < n\<close> against an \<^verbatim>\<open>int\<close> \<open>n\<close>: exact, and false for a NaN.\<close>

fun py_less_int :: "pynum \<Rightarrow> int \<Rightarrow> bool" where
  "py_less_int (PyInt m) n = (m < n)"
| "py_less_int (PyFloat (Finite v)) n = (v < of_int n)"
| "py_less_int (PyFloat NInf) n = True"
| "py_less_int (PyFloat a) n = False"

text \<open>\<^verbatim>\<open>int(x)\<close>.\<close>

fun py_int :: "pynum \<Rightarrow> error + int" where
  "py_int (PyInt n) = Inr n"
| "py_int (PyFloat a) = double_to_int a"

section \<open>Asset bundles and pool snapshots\<close>

text \<open>
  Modelled from the spec: the class \<^verbatim>\<open>Assets\<close> of \<^verbatim>\<open>cardex.dataclasses.models\<close> is
  not among the sources. An asset bundle is a mapping from unit identifier to integer
  quantity with a stable iteration order, here an association list. \<^verbatim>\<open>len\<close> is the
  number of units; \<^verbatim>\<open>unit()\<close> returns the sole unit identifier and fails if the bundle
  does not contain exactly one entry; \<^verbatim>\<open>quantity()\<close> returns the amount of the sole
  entry; \<^verbatim>\<open>Assets(**{u: q})\<close> builds the one-entry bundle; an item assignment
  replaces the amount of a unit.
\<close>

type_synonym Assets = "(string \<times> int) list"

definition len :: "Assets \<Rightarrow> int" where
  "len asset = int (length asset)"

fun unit :: "Assets \<Rightarrow> error + string" where
  "unit [(u, q)] = Inr u"
| "unit asset = Inl NotSingleUnit"

fun quantity :: "Assets \<Rightarrow> error + int" where
  "quantity [(u, q)] = Inr q"
| "quantity asset = Inl NotSingleUnit"

definition Assets :: "string \<Rightarrow> int \<Rightarrow> Assets" where
  "Assets u q = [(u, q)]"

definition set_item :: "Assets \<Rightarrow> string \<Rightarrow> int \<Rightarrow> Assets" where
  "set_item asset u q = AList.update u q asset"

text \<open>
  Modelled from the spec: the constant \<^verbatim>\<open>ONE_VALUE\<close> of \<^verbatim>\<open>cardex.dexs.core.constants\<close>
  is not among the sources; the checks it appears in ask for exactly one unit.
\<close>

definition ONE_VALUE :: int where
  "ONE_VALUE = 1"

text \<open>
  Modelled from the spec: the base class \<^verbatim>\<open>AbstractPoolState\<close> of
  \<^verbatim>\<open>cardex.dexs.amm.amm_base\<close> is not among the sources. A pool snapshot has the two
  unit identifiers and the optional volume fee in basis points; a constant-product
  pool has its two reserves as they are.
\<close>

record pool_state =
  unit_a :: string
  unit_b :: string
  volume_fee :: "int option"

record cp_pool_state = pool_state +
  reserve_a :: int
  reserve_b :: int

text \<open>\<^verbatim>\<open>self.volume_fee or 0\<close>: \<^verbatim>\<open>None\<close> and \<open>0\<close> both give \<open>0\<close>.\<close>

definition fee_or_0 :: "int option \<Rightarrow> int" where
  "fee_or_0 f = (case f of None \<Rightarrow> 0 | Some v \<Rightarrow> if v = 0 then 0 else v)"

section \<open>Constant-product pools\<close>

text \<open>\<^verbatim>\<open>AbstractConstantProductPoolState.get_amount_out\<close>.\<close>

definition get_amount_out :: "cp_pool_state \<Rightarrow> Assets \<Rightarrow> bool \<Rightarrow> error + (Assets \<times> pynum)" where
  "get_amount_out self asset precise =
     (if len asset \<noteq> ONE_VALUE then Inl (ValueError ''Asset should only have one token.'')
      else bindE (unit asset) (\<lambda>u.
        if u \<notin> set [unit_a self, unit_b self]
        then Inl (ValueError (''Asset '' @ u @ '' is invalid for pool ''
                                @ unit_a self @ ''-'' @ unit_b self))
        else
          let (reserve_in, reserve_out, unit_out) =
                (if u = unit_a self then (reserve_a self, reserve_b self, unit_b self)
                 else (reserve_b self, reserve_a self, unit_a self));
              fee_modifier = 10000 - fee_or_0 (volume_fee self)
          in bindE (quantity asset) (\<lambda>q.
               let numerator = q * fee_modifier * reserve_out;
                   denominator = q * fee_modifier + reserve_in * 10000
               in bindE (int_floor_divide numerator denominator) (\<lambda>out.
                    let amount_out = Assets unit_out out;
                        amount_out = (if \<not> precise then set_item amount_out unit_out out
                                      else amount_out)
                    in bindE (quantity amount_out) (\<lambda>out_quantity.
                         if out_quantity = 0 then Inr (amount_out, PyInt 0)
                         else
                           let price_numerator =
                                 reserve_out * q * denominator * fee_modifier
                                 - numerator * reserve_in * 10000;
                               price_denominator = reserve_out * q * denominator * 10000
                           in bindE (int_true_divide price_numerator price_denominator)
                                (\<lambda>price_impact. Inr (amount_out, PyFloat price_impact)))))))"

text \<open>\<^verbatim>\<open>AbstractConstantProductPoolState.get_amount_in\<close>.\<close>

definition get_amount_in :: "cp_pool_state \<Rightarrow> Assets \<Rightarrow> bool \<Rightarrow> error + (Assets \<times> pynum)" where
  "get_amount_in self asset precise =
     (if len asset \<noteq> ONE_VALUE then Inl (ValueError ''Asset should only have one token.'')
      else bindE (unit asset) (\<lambda>u.
        if u \<notin> set [unit_a self, unit_b self]
        then Inl (ValueError (''Asset '' @ u @ '' is invalid for pool ''
                                @ unit_a self @ ''-'' @ unit_b self))
        else
          let (reserve_in, reserve_out, unit_out) =
                (if u = unit_b self then (reserve_a self, reserve_b self, unit_a self)
                 else (reserve_b self, reserve_a self, unit_b self));
              fee_modifier = 10000 - fee_or_0 (volume_fee self)
          in bindE (quantity asset) (\<lambda>q.
               let numerator = q * 10000 * reserve_in;
                   denominator = (reserve_out - q) * fee_modifier
               in bindE (int_floor_divide numerator denominator) (\<lambda>inp.
                    let amount_in = Assets unit_out inp;
                        amount_in = (if \<not> precise then set_item amount_in unit_out inp
                                     else amount_in);
                        price_numerator =
                          reserve_out * numerator * fee_modifier
                          - q * denominator * reserve_in * 10000;
                        price_denominator = reserve_out * numerator * 10000
                    in bindE (int_true_divide price_numerator price_denominator)
                         (\<lambda>price_impact. Inr (amount_in, PyFloat price_impact))))))"

section \<open>Powers\<close>

text \<open>
  \<^verbatim>\<open>x ** k\<close> with a literal exponent \<open>k \<ge> 1\<close>. On an \<^verbatim>\<open>int\<close> it is the exact power.
  On a \<^verbatim>\<open>float\<close> CPython settles NaN, the infinities, zero, 1 and -1 itself and
  hands every other base, as its absolute value, to the C library's \<^verbatim>\<open>pow\<close>; an infinite
  result there is an \<^verbatim>\<open>OverflowError\<close>. IEEE 754 does not fix the last bit of \<^verbatim>\<open>pow\<close>,
  so the library function is a parameter \<open>powf\<close> of everything that can reach it.
\<close>

type_synonym libm_pow = "rat \<Rightarrow> nat \<Rightarrow> double"

fun float_pow :: "libm_pow \<Rightarrow> double \<Rightarrow> nat \<Rightarrow> error + double" where
  "float_pow powf NaN k = Inr NaN"
| "float_pow powf PInf k = Inr PInf"
| "float_pow powf NInf k = Inr (if odd k then NInf else PInf)"
| "float_pow powf (Finite v) k =
     (if v = 0 then Inr (Finite 0)
      else if \<bar>v\<bar> = 1 then Inr (Finite (if v < 0 \<and> odd k then - 1 else 1))
      else case powf \<bar>v\<bar> k of
             Finite r \<Rightarrow> Inr (Finite (if v < 0 \<and> odd k then - r else r))
           | NaN \<Rightarrow> Inr NaN
           | _ \<Rightarrow> Inl OverflowError)"

fun py_pow :: "libm_pow \<Rightarrow> pynum \<Rightarrow> nat \<Rightarrow> error + pynum" where
  "py_pow powf (PyInt n) k = Inr (PyInt (n ^ k))"
| "py_pow powf (PyFloat a) k = bindE (float_pow powf a k) (\<lambda>r. Inr (PyFloat r))"

text \<open>A library \<^verbatim>\<open>pow\<close> that rounds correctly, for evaluating concrete inputs.\<close>

definition pow_rounded :: libm_pow where
  "pow_rounded v k = round_double (v ^ k)"

section \<open>Stableswap pools\<close>

text \<open>
  Modelled from the spec: the pool's holdings \<^verbatim>\<open>self.assets\<close> belong to the base class
  that is not among the sources. A stableswap pool holds two assets; \<open>quantity_0\<close> and
  \<open>quantity_1\<close> are \<^verbatim>\<open>self.assets.quantity(0)\<close> and \<^verbatim>\<open>self.assets.quantity(1)\<close>, and
  \<open>multiplier_0\<close> and \<open>multiplier_1\<close> are the two entries of the class attribute
  \<^verbatim>\<open>asset_mulitipliers\<close> (\<^verbatim>\<open>[1, 1]\<close> unless a subclass overrides it). \<open>variant\<close> tells
  \<^verbatim>\<open>AbstractStableSwapPoolState\<close> from its subclass
  \<^verbatim>\<open>AbstractCommonStableSwapPoolState\<close>, which overrides \<^verbatim>\<open>_get_ann\<close> only.
\<close>

datatype stableswap_variant = Standard | Common

record stableswap_pool_state = pool_state +
  variant :: stableswap_variant
  quantity_0 :: int
  quantity_1 :: int
  multiplier_0 :: int
  multiplier_1 :: int

text \<open>The properties \<^verbatim>\<open>reserve_a\<close>, \<^verbatim>\<open>reserve_b\<close> and \<^verbatim>\<open>amp\<close> of the stableswap class.\<close>

definition stable_reserve_a :: "stableswap_pool_state \<Rightarrow> int" where
  "stable_reserve_a self = quantity_0 self * multiplier_0 self"

definition stable_reserve_b :: "stableswap_pool_state \<Rightarrow> int" where
  "stable_reserve_b self = quantity_1 self * multiplier_1 self"

definition amp :: "stableswap_pool_state \<Rightarrow> int" where
  "amp self = 75"

text \<open>\<^verbatim>\<open>_get_ann\<close>, of the class and of its subclass.\<close>

definition get_ann :: "stableswap_pool_state \<Rightarrow> int" where
  "get_ann self =
     (let n_coins = 2
      in case variant self of
           Standard \<Rightarrow> amp self * n_coins ^ nat n_coins
         | Common \<Rightarrow> amp self * n_coins)"

text \<open>
  One pass of the loop body of \<^verbatim>\<open>_get_d\<close>, up to the new \<open>d\<close>:
  \<^verbatim>\<open>d_p = d**3 / (n_coins**n_coins * self.reserve_a * self.reserve_b)\<close> and
  \<^verbatim>\<open>d = d * (ann * s + d_p * n_coins) / ((ann - 1) * d + (n_coins + 1) * d_p)\<close>.
\<close>

definition d_step :: "libm_pow \<Rightarrow> int \<Rightarrow> int \<Rightarrow> int \<Rightarrow> int \<Rightarrow> pynum \<Rightarrow> error + pynum" where
  "d_step powf ann s ra rb d =
     (let n_coins = 2
      in bindE (py_pow powf d 3) (\<lambda>d3.
         bindE (py_truediv d3 (PyInt (n_coins ^ nat n_coins * ra * rb))) (\<lambda>d_p.
         bindE (py_mul d_p (PyInt n_coins)) (\<lambda>t1.
         bindE (py_add (PyInt (ann * s)) t1) (\<lambda>t2.
         bindE (py_mul d t2) (\<lambda>num.
         bindE (py_mul (PyInt (ann - 1)) d) (\<lambda>t3.
         bindE (py_mul (PyInt (n_coins + 1)) d_p) (\<lambda>t4.
         bindE (py_add t3 t4) (\<lambda>den.
         py_truediv num den)))))))))"

text \<open>
  The loop \<^verbatim>\<open>for _ in range(256)\<close> of \<^verbatim>\<open>_get_d\<close> with the passes that are left:
  the pass ends the loop when \<^verbatim>\<open>abs(d - d_prev) < 1\<close>.
\<close>

fun get_d_loop :: "libm_pow \<Rightarrow> int \<Rightarrow> int \<Rightarrow> int \<Rightarrow> int \<Rightarrow> nat \<Rightarrow> pynum \<Rightarrow> error + pynum" where
  "get_d_loop powf ann s ra rb 0 d = Inr d"
| "get_d_loop powf ann s ra rb (Suc n) d_prev =
     bindE (d_step powf ann s ra rb d_prev) (\<lambda>d.
     bindE (py_sub d d_prev) (\<lambda>diff.
       if py_less_int (py_abs diff) 1 then Inr d
       else get_d_loop powf ann s ra rb n d))"

text \<open>\<^verbatim>\<open>_get_d\<close>.\<close>

definition get_d :: "libm_pow \<Rightarrow> stableswap_pool_state \<Rightarrow> error + pynum" where
  "get_d powf self =
     (let ann = get_ann self;
          s = stable_reserve_a self + stable_reserve_b self
      in if s = 0 then Inr (PyInt 0)
         else get_d_loop powf ann s (stable_reserve_a self) (stable_reserve_b self)
                256 (PyInt s))"

text \<open>
  One pass of the loop body of \<^verbatim>\<open>_get_y\<close>:
  \<^verbatim>\<open>out = (out**2 + c) / (2 * out + b - d)\<close>.
\<close>

definition y_step :: "libm_pow \<Rightarrow> pynum \<Rightarrow> pynum \<Rightarrow> pynum \<Rightarrow> pynum \<Rightarrow> error + pynum" where
  "y_step powf b c d out =
     bindE (py_pow powf out 2) (\<lambda>out2.
     bindE (py_add out2 c) (\<lambda>num.
     bindE (py_mul (PyInt 2) out) (\<lambda>t1.
     bindE (py_add t1 b) (\<lambda>t2.
     bindE (py_sub t2 d) (\<lambda>den.
     py_truediv num den)))))"

fun get_y_loop :: "libm_pow \<Rightarrow> pynum \<Rightarrow> pynum \<Rightarrow> pynum \<Rightarrow> nat \<Rightarrow> pynum \<Rightarrow> error + pynum" where
  "get_y_loop powf b c d 0 out = Inr out"
| "get_y_loop powf b c d (Suc n) out_prev =
     bindE (y_step powf b c d out_prev) (\<lambda>out.
     bindE (py_sub out out_prev) (\<lambda>diff.
       if py_less_int (py_abs diff) 1 then Inr out
       else get_y_loop powf b c d n out))"

text \<open>\<^verbatim>\<open>_get_y\<close>.\<close>

definition get_y ::
  "libm_pow \<Rightarrow> stableswap_pool_state \<Rightarrow> Assets \<Rightarrow> string \<Rightarrow> bool \<Rightarrow> bool \<Rightarrow> error + Assets" where
  "get_y powf self in_assets out_unit precise get_input =
     (let n_coins = 2; ann = get_ann self
      in bindE (get_d powf self) (\<lambda>d.
         let subtract = (if get_input then - 1 else 1)
         in if len in_assets > ONE_VALUE then Inl (ValueError ''Only one input asset allowed.'')
            else bindE (unit in_assets) (\<lambda>u.
              if u \<notin> set [unit_a self, unit_b self] then Inl (ValueError ''Invalid input token.'')
              else if out_unit \<notin> set [unit_a self, unit_b self]
              then Inl (ValueError ''Invalid output token.'')
              else bindE (quantity in_assets) (\<lambda>in_quantity.
                let (in_reserve, out_multiplier) =
                      (if u = unit_a self
                       then (stable_reserve_a self + in_quantity * multiplier_0 self * subtract,
                             multiplier_1 self)
                       else (stable_reserve_b self + in_quantity * multiplier_1 self * subtract,
                             multiplier_0 self));
                    s = in_reserve
                in bindE (py_pow powf d 3) (\<lambda>d3.
                   bindE (py_truediv d3 (PyInt (n_coins ^ 2 * ann * in_reserve))) (\<lambda>c.
                   bindE (py_truediv d (PyInt ann)) (\<lambda>t.
                   bindE (py_add (PyInt s) t) (\<lambda>b.
                   bindE (get_y_loop powf b c d 256 d) (\<lambda>out.
                   bindE (py_truediv out (PyInt out_multiplier)) (\<lambda>out.
                   bindE (py_int out) (\<lambda>n.
                     let out_assets = Assets out_unit n
                     in if \<not> precise
                        then bindE (py_int out) (\<lambda>n'. Inr (set_item out_assets out_unit n'))
                        else Inr out_assets)))))))))))"


definition fee_unscaled :: "stableswap_pool_state \<Rightarrow> int \<Rightarrow> error + int" where
  "fee_unscaled self q =
     bindE (int_true_divide (q * 10000) (10000 - fee_or_0 (volume_fee self))) double_to_int"

text \<open>
  \<^verbatim>\<open>a.root[a.unit()] = v\<close> for an amount \<open>v\<close> that may have raised: the right-hand
  side is evaluated first.
\<close>

definition assign_sole :: "Assets \<Rightarrow> error + int \<Rightarrow> error + Assets" where
  "assign_sole a v = bindE v (\<lambda>n. bindE (unit a) (\<lambda>u. Inr (set_item a u n)))"


text \<open>\<^verbatim>\<open>AbstractStableSwapPoolState.get_amount_in\<close>.\<close>

definition stable_get_amount_in ::
  "libm_pow \<Rightarrow> stableswap_pool_state \<Rightarrow> Assets \<Rightarrow> bool \<Rightarrow> bool \<Rightarrow> error + (Assets \<times> pynum)" where
  "stable_get_amount_in powf self asset precise fee_on_input =
     bindE (if \<not> fee_on_input
            then bindE (unit asset) (\<lambda>u.
                 bindE (quantity asset) (\<lambda>q.
                 bindE (fee_unscaled self q) (\<lambda>n. Inr (Assets u n))))
            else Inr asset) (\<lambda>out_asset.
     bindE (unit asset) (\<lambda>u.
     let in_unit = (if u = unit_b self then unit_a self else unit_b self)
     in bindE (get_y powf self out_asset in_unit precise True) (\<lambda>in_asset.
        bindE (if in_unit = unit_b self
               then int_true_divide (stable_reserve_b self) (multiplier_1 self)
               else int_true_divide (stable_reserve_a self) (multiplier_0 self)) (\<lambda>in_reserve.
        bindE (assign_sole in_asset
                 (bindE (quantity in_asset) (\<lambda>q.
                  bindE (py_sub (PyInt q) (PyFloat in_reserve)) py_int))) (\<lambda>in_asset.
        bindE (if fee_on_input
               then assign_sole in_asset (bindE (quantity in_asset) (fee_unscaled self))
               else Inr in_asset) (\<lambda>in_asset.
        bindE (if precise
               then assign_sole in_asset (quantity in_asset)
               else Inr in_asset) (\<lambda>in_asset.
        Inr (in_asset, PyInt 0))))))))"

section \<open>Constant-liquidity pools\<close>

text \<open>
  \<^verbatim>\<open>AbstractConstantLiquidityPoolState.get_amount_out\<close> and \<^verbatim>\<open>get_amount_in\<close>: both
  ignore their arguments and raise.
\<close>

definition cl_get_amount_out :: "pool_state \<Rightarrow> Assets \<Rightarrow> bool \<Rightarrow> error + (Assets \<times> pynum)" where
  "cl_get_amount_out self asset precise =
     Inl (NotImplementedError ''CLPP amount out is not yet implemented.'')"

definition cl_get_amount_in :: "pool_state \<Rightarrow> Assets \<Rightarrow> bool \<Rightarrow> error + (Assets \<times> pynum)" where
  "cl_get_amount_in self asset precise =
     Inl (NotImplementedError ''CLPP amount in is not yet implemented.'')"

section \<open>The error kinds and the invariant solve of the specification\<close>

text \<open>
  Modelled from the spec: the four error kinds of the specification, which the source
  does not declare. A bundle without exactly one unit is \<open>InvalidInput\<close>, a unit that
  is neither of the pool's two units is \<open>UnknownAsset\<close>, a curve family without a pricing
  algorithm is \<open>Unimplemented\<close>; the arithmetic exceptions of Python are of no kind.
\<close>

datatype error_kind = InvalidInput | UnknownAsset | InsufficientLiquidity | Unimplemented

fun kind_of :: "error \<Rightarrow> error_kind option" where
  "kind_of (ValueError msg) =
     (if msg = ''Asset should only have one token.'' \<or> msg = ''Only one input asset allowed.''
      then Some InvalidInput
      else if msg = ''Invalid input token.'' \<or> take 6 msg = ''Asset ''
      then Some UnknownAsset
      else None)"
| "kind_of NotSingleUnit = Some InvalidInput"
| "kind_of (NotImplementedError msg) = Some Unimplemented"
| "kind_of ZeroDivisionError = None"
| "kind_of OverflowError = None"


text \<open>
  The invariant solve as the specification words it. \<open>d_iterate d0 k\<close> is the \<open>k\<close>-th
  iterate from the starting guess \<open>d0\<close>: the iterate 0 is \<open>d0\<close> and each further one comes
  from its predecessor by the recurrence; an iterate whose arithmetic fails is that
  failure, and so is every later one. \<open>within_tolerance\<close> says that an iterate differs from
  its predecessor by less than 1. \<open>compute_D\<close> is 0 for \<open>S = 0\<close>; otherwise it starts from
  \<open>S\<close> and is the first of the iterates 1 to 256 that is within the tolerance of its
  predecessor, and the iterate 256 if none is.
\<close>

fun d_iterate ::
  "libm_pow \<Rightarrow> int \<Rightarrow> int \<Rightarrow> int \<Rightarrow> int \<Rightarrow> pynum \<Rightarrow> nat \<Rightarrow> error + pynum" where
  "d_iterate powf ann s ra rb d0 0 = Inr d0"
| "d_iterate powf ann s ra rb d0 (Suc k) =
     bindE (d_iterate powf ann s ra rb d0 k) (d_step powf ann s ra rb)"

definition within_tolerance :: "error + pynum \<Rightarrow> error + pynum \<Rightarrow> bool" where
  "within_tolerance d_prev d =
     (case (d_prev, d) of
        (Inr x, Inr y) \<Rightarrow>
          (case py_sub y x of Inr diff \<Rightarrow> py_less_int (py_abs diff) 1 | Inl e \<Rightarrow> False)
      | _ \<Rightarrow> False)"

definition compute_D :: "libm_pow \<Rightarrow> int \<Rightarrow> int \<Rightarrow> int \<Rightarrow> error + pynum" where
  "compute_D powf ann ra rb =
     (let s = ra + rb
      in if s = 0 then Inr (PyInt 0)
         else case find (\<lambda>k. within_tolerance (d_iterate powf ann s ra rb (PyInt s) (k - 1))
                                               (d_iterate powf ann s ra rb (PyInt s) k))
                     [1..<257] of
                Some k \<Rightarrow> d_iterate powf ann s ra rb (PyInt s) k
              | None \<Rightarrow> d_iterate powf ann s ra rb (PyInt s) 256)"

section \<open>Example pools\<close>

text \<open>
  The pool of the concrete scenario: reserves of one million on both sides and a volume
  fee of 30 basis points.
\<close>

definition example_pool :: cp_pool_state where
  "example_pool = \<lparr>unit_a = ''A'', unit_b = ''B'', volume_fee = Some 30,
                    reserve_a = 1000000, reserve_b = 1000000\<rparr>"

text \<open>A constant-product pool without a fee and with reserves of 100 on both sides.\<close>

definition small_pool :: cp_pool_state where
  "small_pool = \<lparr>unit_a = ''A'', unit_b = ''B'', volume_fee = None,
                  reserve_a = 100, reserve_b = 100\<rparr>"

text \<open>
  Stableswap pools of either variant with the given holdings, both multipliers 1 and a
  volume fee of 30 basis points.
\<close>

definition stable_pool :: "stableswap_variant \<Rightarrow> int \<Rightarrow> int \<Rightarrow> stableswap_pool_state" where
  "stable_pool v a b = \<lparr>unit_a = ''A'', unit_b = ''B'', volume_fee = Some 30, variant = v,
      quantity_0 = a, quantity_1 = b, multiplier_0 = 1, multiplier_1 = 1\<rparr>"

section \<open>Facts about rounding\<close>

lemma pow2_powi: "pow2 e = 2 powi e"
  by (simp add: pow2_def power_int_def inverse_eq_divide power_one_over)

lemma pow2_pos: "0 < pow2 e"
  by (simp add: pow2_powi)

lemma pow2_mono: "a \<le> b \<Longrightarrow> pow2 a \<le> pow2 b"
  by (simp add: pow2_powi power_int_increasing)

lemma pow2_le_D: "pow2 a \<le> pow2 b \<Longrightarrow> a \<le> b"
proof (rule ccontr)
  assume le: "pow2 a \<le> pow2 b" and "\<not> a \<le> b"
  then have "b < a" by simp
  then have "pow2 b < pow2 a" by (simp add: pow2_powi power_int_strict_increasing)
  with le show False by simp
qed
  

lemma pow2_diff: "pow2 (a - b) = pow2 a / pow2 b"
  by (simp add: pow2_powi power_int_diff)

lemma pow2_nat: "0 \<le> e \<Longrightarrow> pow2 e = 2 ^ nat e"
  by (simp add: pow2_def)

lemma floor_log2_le:
  assumes "0 < x"
  shows "pow2 (floor_log2 x) \<le> x"
proof -
  obtain p q where pq: "quotient_of x = (p, q)" by (cases "quotient_of x")
  have q: "0 < q" using pq quotient_of_denom_pos by blast
  have x: "x = of_int p / of_int q" using pq quotient_of_div by blast
  have p: "0 < p" using assms q x by (simp add: zero_less_divide_iff)
  define k where "k = bitlen p - bitlen q"
  let ?t = "if 0 \<le> k then q * 2 ^ nat k \<le> p else q \<le> p * 2 ^ nat (- k)"
  have fl: "floor_log2 x = (if ?t then k else k - 1)"
    by (simp add: floor_log2_def pq k_def Let_def)
  show ?thesis
  proof (cases ?t)
    case True
    show ?thesis
    proof (cases "0 \<le> k")
      case k0: True
      with True have "q * 2 ^ nat k \<le> p" by simp
      then have "(of_int q::rat) * 2 ^ nat k \<le> of_int p"
        by (metis of_int_le_iff of_int_mult of_int_numeral of_int_power)
      then have "(2::rat) ^ nat k \<le> of_int p / of_int q"
        using q by (simp add: pos_le_divide_eq mult.commute)
      then show ?thesis using True k0 fl x by (simp add: pow2_def)
    next
      case k0: False
      with True have "q \<le> p * 2 ^ nat (- k)" by simp
      then have "(of_int q::rat) \<le> of_int p * 2 ^ nat (- k)"
        by (metis of_int_le_iff of_int_mult of_int_numeral of_int_power)
      then have "1 / (2::rat) ^ nat (- k) \<le> of_int p / of_int q"
        using q by (simp add: pos_le_divide_eq pos_divide_le_eq mult.commute)
      then show ?thesis using True k0 fl x by (simp add: pow2_def)
    qed
  next
    case False
    have bp: "2 ^ nat (bitlen p - 1) \<le> p" using bitlen_bounds[OF p] by simp
    have bq: "q < 2 ^ nat (bitlen q)" using bitlen_bounds[OF q] by simp
    have bp1: "1 \<le> bitlen p" using p by (simp add: bitlen_alt_def)
    have "pow2 (bitlen p - 1) \<le> of_int p"
      using bp bp1 by (simp add: pow2_nat)
    moreover have "of_int q \<le> pow2 (bitlen q)"
      using bq bitlen_nonneg[of q] by (simp add: pow2_nat)
    ultimately have "pow2 (bitlen p - 1) / pow2 (bitlen q) \<le> of_int p / of_int q"
      using q pow2_pos[of "bitlen q"] pow2_pos[of "bitlen p - 1"]
      by (intro frac_le) auto
    moreover have "pow2 (k - 1) = pow2 (bitlen p - 1) / pow2 (bitlen q)"
      unfolding k_def using pow2_diff[of "bitlen p - 1" "bitlen q"] by (simp add: algebra_simps)
    ultimately show ?thesis using False fl x by simp
  qed
qed

lemma round_half_even_near: "\<bar>of_int (round_half_even y) - y\<bar> \<le> 1 / 2"
  unfolding round_half_even_def Let_def by (auto simp: abs_if) linarith+

lemma round_double_finite:
  assumes "\<bar>x\<bar> \<le> 2 ^ 1023"
  shows "\<exists>v. round_double x = Finite v"
proof (cases "x = 0")
  case True
  then show ?thesis by (simp add: round_double_def)
next
  case False
  define e where "e = max (floor_log2 \<bar>x\<bar>) (- 1022)"
  define u where "u = pow2 (e - 52)"
  define v where "v = of_int (round_half_even (x / u)) * u"
  have "pow2 (floor_log2 \<bar>x\<bar>) \<le> pow2 1023"
    using floor_log2_le[of "\<bar>x\<bar>"] False assms by (simp add: pow2_def)
  then have "floor_log2 \<bar>x\<bar> \<le> 1023"
    by (rule pow2_le_D)
  then have "e \<le> 1023" by (simp add: e_def)
  then have "u \<le> pow2 971" unfolding u_def by (intro pow2_mono) simp
  then have u1: "u \<le> 2 ^ 971" by (simp add: pow2_def)
  have u0: "0 < u" by (simp add: u_def pow2_pos)
  have "v - x = (of_int (round_half_even (x / u)) - x / u) * u"
    using u0 by (simp add: v_def left_diff_distrib)
  then have "\<bar>v - x\<bar> = \<bar>of_int (round_half_even (x / u)) - x / u\<bar> * u"
    using u0 by (simp add: abs_mult)
  also have "\<dots> \<le> 1 / 2 * u"
    using round_half_even_near[of "x / u"] u0 by (intro mult_right_mono) auto
  finally have "\<bar>v - x\<bar> \<le> 2 ^ 970" using u1 by simp
  then have "\<bar>v\<bar> \<le> 2 ^ 1023 + 2 ^ 970" using assms by linarith
  then have "\<not> 2 ^ 1024 \<le> \<bar>v\<bar>" by simp
  then show ?thesis
    using False
    by (simp add: round_double_def Let_def e_def[symmetric] u_def[symmetric] v_def[symmetric])
qed

lemma int_true_divide_finite:
  assumes "b \<noteq> 0" "\<bar>a\<bar> \<le> 2 ^ 1023 * \<bar>b\<bar>"
  shows "\<exists>v. int_true_divide a b = Inr (Finite v)"
proof -
  have "(of_int \<bar>a\<bar> :: rat) \<le> of_int (2 ^ 1023 * \<bar>b\<bar>)"
    using assms(2) by (rule iffD2[OF of_int_le_iff])
  then have "\<bar>(of_int a :: rat) / of_int b\<bar> \<le> 2 ^ 1023"
    using assms(1) by (simp add: pos_divide_le_eq)
  then obtain v where "round_double (of_int a / of_int b) = Finite v"
    using round_double_finite by blast
  then show ?thesis using assms by (simp add: int_true_divide_def)
qed

lemma int_true_divide_unit_interval:
  assumes "0 \<le> a" "a \<le> b" "0 < b"
  shows "\<exists>v. int_true_divide a b = Inr (Finite v)"
proof -
  have "\<bar>a\<bar> \<le> 1 * \<bar>b\<bar>" using assms by simp
  also have "\<dots> \<le> 2 ^ 1023 * \<bar>b\<bar>" by (intro mult_right_mono) auto
  finally show ?thesis using assms int_true_divide_finite[of b a] by simp
qed

section \<open>Facts about constant-product pools\<close>

lemma price_impact_out_finite:
  fixes q fm ri ro :: int
  assumes "0 < ri" "0 \<le> ro" "0 \<le> q" "0 \<le> fm" "fm \<le> 10000"
    and nz: "(q * fm * ro) div (q * fm + ri * 10000) \<noteq> 0"
  shows "\<exists>v. int_true_divide
                (ro * q * (q * fm + ri * 10000) * fm - (q * fm * ro) * ri * 10000)
                (ro * q * (q * fm + ri * 10000) * 10000) = Inr (Finite v)"
proof -
  have num: "q * fm * ro \<noteq> 0" using nz by auto
  then have q: "0 < q" and fm: "0 < fm" and ro: "0 < ro"
    using assms by (auto simp: less_le)
  have den: "0 < q * fm + ri * 10000"
    using q fm assms(1) by (simp add: add_pos_pos)
  have roq: "0 < ro * q * (q * fm + ri * 10000)"
    using ro q den by simp
  have pd: "0 < ro * q * (q * fm + ri * 10000) * 10000" using roq by simp
  have eq: "ro * q * (q * fm + ri * 10000) * fm - (q * fm * ro) * ri * 10000
              = ro * q * fm * (q * fm)"
    by (simp add: algebra_simps)
  have pn0: "0 \<le> ro * q * fm * (q * fm)" using ro q fm by simp
  have "ro * q * (q * fm + ri * 10000) * fm \<le> ro * q * (q * fm + ri * 10000) * 10000"
    using roq assms(5) by (intro mult_left_mono) auto
  moreover have "0 \<le> (q * fm * ro) * ri * 10000" using q fm ro assms(1) by simp
  ultimately have le: "ro * q * (q * fm + ri * 10000) * fm - (q * fm * ro) * ri * 10000
              \<le> ro * q * (q * fm + ri * 10000) * 10000" by linarith
  show ?thesis
    using int_true_divide_unit_interval[OF _ le pd] pn0 eq by simp
qed

lemma get_amount_out_single:
  assumes "u = unit_a self \<or> u = unit_b self"
    and "(reserve_in, reserve_out, unit_out) =
           (if u = unit_a self then (reserve_a self, reserve_b self, unit_b self)
            else (reserve_b self, reserve_a self, unit_a self))"
    and "fm = 10000 - fee_or_0 (volume_fee self)"
    and "q * fm + reserve_in * 10000 \<noteq> 0"
  shows "get_amount_out self [(u, q)] precise =
           (let out = (q * fm * reserve_out) div (q * fm + reserve_in * 10000)
            in if out = 0 then Inr ([(unit_out, 0)], PyInt 0)
               else bindE (int_true_divide
                      (reserve_out * q * (q * fm + reserve_in * 10000) * fm
                         - (q * fm * reserve_out) * reserve_in * 10000)
                      (reserve_out * q * (q * fm + reserve_in * 10000) * 10000))
                    (\<lambda>price_impact. Inr ([(unit_out, out)], PyFloat price_impact)))"
  using assms
  by (auto simp: get_amount_out_def len_def ONE_VALUE_def bindE_def Let_def
        int_floor_divide_def Assets_def set_item_def split: if_splits)

text \<open>
  On a pool with a positive input-side reserve, a non-negative output-side reserve and
  a fee within \<open>0 \<le> fee < 10000\<close>, a one-unit bundle of a non-negative quantity of
  one of the pool's units is priced without any exception, the price-impact division
  included.
\<close>

lemma get_amount_out_returns:
  assumes valid: "u = unit_a self \<or> u = unit_b self"
    and sides: "(reserve_in, reserve_out, unit_out) =
           (if u = unit_a self then (reserve_a self, reserve_b self, unit_b self)
            else (reserve_b self, reserve_a self, unit_a self))"
    and pos: "0 < reserve_in" "0 \<le> reserve_out" "0 \<le> q"
    and fee: "fee = fee_or_0 (volume_fee self)" "0 \<le> fee" "fee < 10000"
  shows "\<exists>impact. get_amount_out self [(u, q)] precise =
           Inr ([(unit_out, (q * (10000 - fee) * reserve_out)
                             div (q * (10000 - fee) + reserve_in * 10000))], impact)"
proof -
  define fm where "fm = 10000 - fee"
  have fm: "fm = 10000 - fee_or_0 (volume_fee self)" "0 \<le> fm" "fm \<le> 10000"
    using fee by (simp_all add: fm_def)
  have "0 \<le> q * fm" using pos(3) fm(2) by simp
  then have den: "q * fm + reserve_in * 10000 \<noteq> 0" using pos(1) by linarith
  note single = get_amount_out_single[OF valid sides fm(1) den, of precise]
  show ?thesis
  proof (cases "(q * fm * reserve_out) div (q * fm + reserve_in * 10000) = 0")
    case True
    then show ?thesis using single by (simp add: fm_def)
  next
    case False
    obtain v where "int_true_divide
          (reserve_out * q * (q * fm + reserve_in * 10000) * fm
             - (q * fm * reserve_out) * reserve_in * 10000)
          (reserve_out * q * (q * fm + reserve_in * 10000) * 10000) = Inr (Finite v)"
      using price_impact_out_finite[OF pos fm(2,3) False] by blast
    then show ?thesis using single False by (simp add: fm_def bindE_def Let_def)
  qed
qed

text \<open>
  Claim C1. For a constant-product pool with a positive input-side reserve and a
  one-unit input bundle of quantity \<open>q\<close> whose unit is one of the pool's two units,
  \<open>get_amount_out\<close> returns the quantity
  \<open>q * (10000 - fee) * reserve_out div (q * (10000 - fee) + reserve_in * 10000)\<close>
  (floor division); with a zero fee this is \<open>q * reserve_out div (reserve_in + q)\<close>;
  and on the pool with reserves of 1000000 on both sides and a fee of 30, an input of
  10000 of asset A gives 9871. The pool and the bundle satisfy the invariants of the
  data model: quantities and reserves are not negative and \<open>0 \<le> fee < 10000\<close>.
\<close>

theorem get_amount_out_formula:
  assumes "u = unit_a self \<or> u = unit_b self"
    and "(reserve_in, reserve_out, unit_out) =
           (if u = unit_a self then (reserve_a self, reserve_b self, unit_b self)
            else (reserve_b self, reserve_a self, unit_a self))"
    and "0 < reserve_in" "0 \<le> reserve_out" "0 \<le> q"
    and "fee = fee_or_0 (volume_fee self)" "0 \<le> fee" "fee < 10000"
  shows "(\<exists>impact. get_amount_out self [(u, q)] precise =
            Inr ([(unit_out, (q * (10000 - fee) * reserve_out)
                              div (q * (10000 - fee) + reserve_in * 10000))], impact))
       \<and> (fee = 0 \<longrightarrow>
            (q * (10000 - fee) * reserve_out) div (q * (10000 - fee) + reserve_in * 10000)
              = (q * reserve_out) div (reserve_in + q))
       \<and> (\<exists>impact. get_amount_out example_pool [(''A'', 10000)] precise =
            Inr ([(''B'', 9871)], impact))"
proof (intro conjI impI)
  show "\<exists>impact. get_amount_out self [(u, q)] precise =
            Inr ([(unit_out, (q * (10000 - fee) * reserve_out)
                              div (q * (10000 - fee) + reserve_in * 10000))], impact)"
    using assms by (rule get_amount_out_returns)
next
  assume "fee = 0"
  have "(q * 10000 * reserve_out) div (q * 10000 + reserve_in * 10000)
          = (10000 * (q * reserve_out)) div (10000 * (reserve_in + q))"
    by (simp add: algebra_simps)
  also have "\<dots> = (q * reserve_out) div (reserve_in + q)"
    by (rule div_mult_mult1) simp
  finally show "(q * (10000 - fee) * reserve_out) div (q * (10000 - fee) + reserve_in * 10000)
              = (q * reserve_out) div (reserve_in + q)"
    using \<open>fee = 0\<close> by simp
next
  have "\<exists>impact. get_amount_out example_pool [(''A'', 10000)] precise =
            Inr ([(''B'', (10000 * (10000 - 30) * 1000000)
                              div (10000 * (10000 - 30) + 1000000 * 10000))], impact)"
    by (rule get_amount_out_returns) (simp_all add: example_pool_def fee_or_0_def)
  then show "\<exists>impact. get_amount_out example_pool [(''A'', 10000)] precise =
            Inr ([(''B'', 9871)], impact)"
    by simp
qed

text \<open>
  The hypotheses of C1 hold on the example pool for an input of 500 of asset B.
\<close>

theorem get_amount_out_formula_witness:
  "\<exists>impact. get_amount_out example_pool [(''B'', 500)] False =
      Inr ([(''A'', (500 * 9970 * 1000000) div (500 * 9970 + 1000000 * 10000))], impact)"
proof -
  have 1: "''B'' = unit_a example_pool \<or> ''B'' = unit_b example_pool"
    by (simp add: example_pool_def)
  have 2: "(1000000, 1000000, ''A'') =
       (if ''B'' = unit_a example_pool
        then (reserve_a example_pool, reserve_b example_pool, unit_b example_pool)
        else (reserve_b example_pool, reserve_a example_pool, unit_a example_pool))"
    by (simp add: example_pool_def)
  have 3: "30 = fee_or_0 (volume_fee example_pool)"
    by (simp add: example_pool_def fee_or_0_def)
  show ?thesis
    using get_amount_out_formula[OF 1 2 _ _ _ 3, of 500 False] by simp
qed

text \<open>
  Claim C4. For a constant-product pool with positive reserves, a fee within
  \<open>0 \<le> fee < 10000\<close> and a valid one-unit input of quantity \<open>q\<close>, \<open>get_amount_out\<close>
  returns an amount \<open>amount_out\<close> with
  \<open>(reserve_in + q) * (reserve_out - amount_out) \<ge> reserve_in * reserve_out\<close>.
\<close>

theorem get_amount_out_keeps_product:
  assumes "u = unit_a self \<or> u = unit_b self"
    and "(reserve_in, reserve_out, unit_out) =
           (if u = unit_a self then (reserve_a self, reserve_b self, unit_b self)
            else (reserve_b self, reserve_a self, unit_a self))"
    and "0 < reserve_in" "0 < reserve_out" "0 \<le> q"
    and "fee = fee_or_0 (volume_fee self)" "0 \<le> fee" "fee < 10000"
  shows "\<exists>amount_out impact.
           get_amount_out self [(u, q)] precise = Inr ([(unit_out, amount_out)], impact)
           \<and> reserve_in * reserve_out \<le> (reserve_in + q) * (reserve_out - amount_out)"
proof -
  define fm where "fm = 10000 - fee"
  define d where "d = q * fm + reserve_in * 10000"
  define a where "a = (q * fm * reserve_out) div d"
  have fm: "0 < fm" "fm \<le> 10000" using assms(7,8) by (simp_all add: fm_def)
  have "0 \<le> q * fm" using assms(5) fm(1) by simp
  then have d: "0 < d" using assms(3) by (simp add: d_def)
  have n0: "0 \<le> q * fm * reserve_out" using assms(4,5) fm(1) by simp
  have a0: "0 \<le> a" using n0 d by (simp add: a_def pos_imp_zdiv_nonneg_iff)
  have "q * fm * reserve_out = a * d + (q * fm * reserve_out) mod d"
    by (simp add: a_def)
  moreover have "0 \<le> (q * fm * reserve_out) mod d" using d by simp
  ultimately have "a * d \<le> q * fm * reserve_out" by linarith
  moreover have "a * (fm * (q + reserve_in)) \<le> a * d"
  proof (rule mult_left_mono[OF _ a0])
    have "fm * reserve_in \<le> 10000 * reserve_in"
      using fm(2) assms(3) by (intro mult_right_mono) auto
    then show "fm * (q + reserve_in) \<le> d" by (simp add: d_def algebra_simps)
  qed
  ultimately have "fm * (a * (q + reserve_in)) \<le> fm * (q * reserve_out)"
    by (simp add: algebra_simps)
  then have "a * (q + reserve_in) \<le> q * reserve_out"
    using fm(1) by (simp add: mult_le_cancel_left_pos)
  then have prod: "reserve_in * reserve_out \<le> (reserve_in + q) * (reserve_out - a)"
    by (simp add: algebra_simps)
  have le: "0 \<le> reserve_out" using assms(4) by simp
  obtain impact where "get_amount_out self [(u, q)] precise = Inr ([(unit_out, a)], impact)"
    using get_amount_out_returns[OF assms(1,2,3) le assms(5,6,7,8), of precise]
    by (auto simp: a_def d_def fm_def)
  with prod show ?thesis by blast
qed

text \<open>
  The hypotheses of C4 hold on the example pool for an input of 10000 of asset A.
\<close>

theorem get_amount_out_keeps_product_witness:
  "\<exists>amount_out impact.
      get_amount_out example_pool [(''A'', 10000)] True = Inr ([(''B'', amount_out)], impact)
      \<and> (1000000::int) * 1000000 \<le> (1000000 + 10000) * (1000000 - amount_out)"
proof -
  have 1: "''A'' = unit_a example_pool \<or> ''A'' = unit_b example_pool"
    by (simp add: example_pool_def)
  have 2: "(1000000, 1000000, ''B'') =
       (if ''A'' = unit_a example_pool
        then (reserve_a example_pool, reserve_b example_pool, unit_b example_pool)
        else (reserve_b example_pool, reserve_a example_pool, unit_a example_pool))"
    by (simp add: example_pool_def)
  have 3: "30 = fee_or_0 (volume_fee example_pool)"
    by (simp add: example_pool_def fee_or_0_def)
  show ?thesis
    using get_amount_out_keeps_product[OF 1 2 _ _ _ 3, of 10000 True] by simp
qed

text \<open>
  Claim C8. For a valid one-unit input to the constant-product \<open>get_amount_out\<close> whose
  floor-divided output quantity is 0, the call returns the zero-quantity bundle of the
  output unit together with the integer price impact 0: no exception is raised and the
  price-impact division is not performed.
\<close>

theorem get_amount_out_zero:
  assumes "u = unit_a self \<or> u = unit_b self"
    and "(reserve_in, reserve_out, unit_out) =
           (if u = unit_a self then (reserve_a self, reserve_b self, unit_b self)
            else (reserve_b self, reserve_a self, unit_a self))"
    and "fee_modifier = 10000 - fee_or_0 (volume_fee self)"
    and "q * fee_modifier + reserve_in * 10000 \<noteq> 0"
    and "(q * fee_modifier * reserve_out) div (q * fee_modifier + reserve_in * 10000) = 0"
  shows "get_amount_out self [(u, q)] precise = Inr ([(unit_out, 0)], PyInt 0)"
  using get_amount_out_single[OF assms(1,2,3,4), of precise] assms(5) by simp

text \<open>
  The hypotheses of C8 hold on the example pool for an input of quantity 0; there the
  price-impact division, had it been performed, would have raised.
\<close>

theorem get_amount_out_zero_witness:
  "get_amount_out example_pool [(''A'', 0)] True = Inr ([(''B'', 0)], PyInt 0)
   \<and> int_true_divide 0 (1000000 * 0 * (0 * 9970 + 1000000 * 10000) * 10000) = Inl ZeroDivisionError"
proof -
  have 1: "''A'' = unit_a example_pool \<or> ''A'' = unit_b example_pool"
    by (simp add: example_pool_def)
  have 2: "(1000000, 1000000, ''B'') =
       (if ''A'' = unit_a example_pool
        then (reserve_a example_pool, reserve_b example_pool, unit_b example_pool)
        else (reserve_b example_pool, reserve_a example_pool, unit_a example_pool))"
    by (simp add: example_pool_def)
  have 3: "9970 = 10000 - fee_or_0 (volume_fee example_pool)"
    by (simp add: example_pool_def fee_or_0_def)
  show ?thesis
    using get_amount_out_zero[OF 1 2 3, of 0 True] by (simp add: int_true_divide_def)
qed

section \<open>Error behaviour\<close>

text \<open>
  Claim C9. For every pool, bundle and flag, \<open>get_amount_out\<close> and \<open>get_amount_in\<close> of
  the constant-liquidity pool fail with a \<^verbatim>\<open>NotImplementedError\<close> that names the curve
  family (CLPP), an error of the kind \<open>Unimplemented\<close>, and never return a value.
\<close>

theorem constant_liquidity_unimplemented:
  "cl_get_amount_out self asset precise
     = Inl (NotImplementedError ''CLPP amount out is not yet implemented.'')
   \<and> cl_get_amount_in self asset precise
     = Inl (NotImplementedError ''CLPP amount in is not yet implemented.'')
   \<and> kind_of (NotImplementedError ''CLPP amount out is not yet implemented.'') = Some Unimplemented
   \<and> kind_of (NotImplementedError ''CLPP amount in is not yet implemented.'') = Some Unimplemented
   \<and> (\<forall>r. cl_get_amount_out self asset precise \<noteq> Inr r)
   \<and> (\<forall>r. cl_get_amount_in self asset precise \<noteq> Inr r)"
  by (simp add: cl_get_amount_out_def cl_get_amount_in_def)

text \<open>
  Claim C10. On a stableswap pool in which exactly one of the two multiplied reserves is
  zero, the sum \<open>S\<close> is not zero, the division \<^verbatim>\<open>d**3 / (n_coins**n_coins * reserve_a * reserve_b)\<close>
  of the first pass divides by zero, and so the first pass and \<open>get_d\<close> raise
  \<^verbatim>\<open>ZeroDivisionError\<close>: the solve returns only if both reserves are zero or neither is.
\<close>

theorem get_d_one_empty_reserve:
  assumes "(stable_reserve_a self = 0 \<and> stable_reserve_b self \<noteq> 0)
         \<or> (stable_reserve_a self \<noteq> 0 \<and> stable_reserve_b self = 0)"
  shows "stable_reserve_a self + stable_reserve_b self \<noteq> 0
       \<and> py_truediv (PyInt ((stable_reserve_a self + stable_reserve_b self) ^ 3))
            (PyInt (2 ^ 2 * stable_reserve_a self * stable_reserve_b self)) = Inl ZeroDivisionError
       \<and> d_step powf (get_ann self) (stable_reserve_a self + stable_reserve_b self)
            (stable_reserve_a self) (stable_reserve_b self)
            (PyInt (stable_reserve_a self + stable_reserve_b self)) = Inl ZeroDivisionError
       \<and> get_d powf self = Inl ZeroDivisionError"
proof -
  have s: "stable_reserve_a self + stable_reserve_b self \<noteq> 0" using assms by auto
  have z: "2 ^ 2 * stable_reserve_a self * stable_reserve_b self = 0" using assms by auto
  have dp: "py_truediv (PyInt ((stable_reserve_a self + stable_reserve_b self) ^ 3))
            (PyInt (2 ^ 2 * stable_reserve_a self * stable_reserve_b self)) = Inl ZeroDivisionError"
    unfolding z by (simp add: int_true_divide_def bindE_def)
  have st: "d_step powf (get_ann self) (stable_reserve_a self + stable_reserve_b self)
            (stable_reserve_a self) (stable_reserve_b self)
            (PyInt (stable_reserve_a self + stable_reserve_b self)) = Inl ZeroDivisionError"
    using dp by (simp add: d_step_def bindE_def Let_def)
  have "get_d powf self = Inl ZeroDivisionError"
    using s st by (simp add: get_d_def Let_def bindE_def eval_nat_numeral)
  with s dp st show ?thesis by simp
qed

text \<open>
  The hypothesis of C10 holds for the reserves (0, 2000) and (2000, 0).
\<close>

theorem get_d_one_empty_reserve_witness:
  "get_d pow_rounded (stable_pool Standard 0 2000) = Inl ZeroDivisionError
   \<and> get_d pow_rounded (stable_pool Common 2000 0) = Inl ZeroDivisionError"
proof -
  have 1: "(stable_reserve_a (stable_pool Standard 0 2000) = 0
            \<and> stable_reserve_b (stable_pool Standard 0 2000) \<noteq> 0)
         \<or> (stable_reserve_a (stable_pool Standard 0 2000) \<noteq> 0
            \<and> stable_reserve_b (stable_pool Standard 0 2000) = 0)"
    by (simp add: stable_pool_def stable_reserve_a_def stable_reserve_b_def)
  have 2: "(stable_reserve_a (stable_pool Common 2000 0) = 0
            \<and> stable_reserve_b (stable_pool Common 2000 0) \<noteq> 0)
         \<or> (stable_reserve_a (stable_pool Common 2000 0) \<noteq> 0
            \<and> stable_reserve_b (stable_pool Common 2000 0) = 0)"
    by (simp add: stable_pool_def stable_reserve_a_def stable_reserve_b_def)
  show ?thesis
    using get_d_one_empty_reserve[OF 1, of pow_rounded] get_d_one_empty_reserve[OF 2, of pow_rounded]
    by simp
qed

section \<open>The inverse direction of constant-product pools\<close>

lemma get_amount_in_single:
  assumes "u = unit_a self \<or> u = unit_b self"
    and "(reserve_in, reserve_out, unit_out) =
           (if u = unit_b self then (reserve_a self, reserve_b self, unit_a self)
            else (reserve_b self, reserve_a self, unit_b self))"
    and "fm = 10000 - fee_or_0 (volume_fee self)"
  shows "get_amount_in self [(u, q)] precise =
           bindE (int_floor_divide (q * 10000 * reserve_in) ((reserve_out - q) * fm)) (\<lambda>inp.
           bindE (int_true_divide
                    (reserve_out * (q * 10000 * reserve_in) * fm
                       - q * ((reserve_out - q) * fm) * reserve_in * 10000)
                    (reserve_out * (q * 10000 * reserve_in) * 10000))
             (\<lambda>price_impact. Inr ([(unit_out, inp)], PyFloat price_impact)))"
  using assms
  by (auto simp: get_amount_in_def len_def ONE_VALUE_def bindE_def Let_def
        Assets_def set_item_def split: if_splits sum.splits)

text \<open>
  Claim C3 says that \<open>get_amount_in\<close> fails with an \<open>InsufficientLiquidity\<close> error when
  the desired output is at least the output-side reserve. On the pool with reserves of
  100 and no fee, a desired output of 200 of asset B does not fail: the call returns the
  negative amount -200 and the price impact 2.0.
\<close>

theorem get_amount_in_beyond_reserve_counterexample:
  "reserve_b small_pool \<le> 200
   \<and> get_amount_in small_pool [(''B'', 200)] True = Inr ([(''A'', - 200)], PyFloat (Finite 2))"
  by code_simp

text \<open>
  Claim C3, amended. The source has no guard and no error of its own for this case. For a
  valid one-unit bundle whose quantity \<open>q\<close> equals the output-side reserve, the floor
  division raises \<^verbatim>\<open>ZeroDivisionError\<close>, which is of none of the specification's kinds.
  For \<open>q\<close> above a positive output-side reserve, with a positive input-side reserve, a
  fee within \<open>0 \<le> fee < 10000\<close> and \<open>q\<close> at most \<open>2^1023\<close> times the reserve (so that the
  price impact fits a float), the call returns the quantity
  \<open>q * 10000 * reserve_in div ((reserve_out - q) * fee_modifier)\<close>, which is negative.
\<close>

theorem get_amount_in_beyond_reserve:
  assumes "u = unit_a self \<or> u = unit_b self"
    and "(reserve_in, reserve_out, unit_out) =
           (if u = unit_b self then (reserve_a self, reserve_b self, unit_a self)
            else (reserve_b self, reserve_a self, unit_b self))"
    and "fee_modifier = 10000 - fee_or_0 (volume_fee self)"
  shows "(q = reserve_out \<longrightarrow> get_amount_in self [(u, q)] precise = Inl ZeroDivisionError)
       \<and> (reserve_out < q \<and> 0 < reserve_out \<and> 0 < reserve_in
            \<and> 0 < fee_modifier \<and> fee_modifier \<le> 10000 \<and> q \<le> 2 ^ 1023 * reserve_out \<longrightarrow>
            (\<exists>impact. get_amount_in self [(u, q)] precise =
               Inr ([(unit_out, (q * 10000 * reserve_in) div ((reserve_out - q) * fee_modifier))],
                    impact))
            \<and> (q * 10000 * reserve_in) div ((reserve_out - q) * fee_modifier) < 0)
       \<and> kind_of ZeroDivisionError = None"
proof (intro conjI impI)
  note single = get_amount_in_single[OF assms, of q precise]
  show "get_amount_in self [(u, q)] precise = Inl ZeroDivisionError" if "q = reserve_out"
    using single that by (simp add: int_floor_divide_def bindE_def)
  show "kind_of ZeroDivisionError = None" by simp
  assume a: "reserve_out < q \<and> 0 < reserve_out \<and> 0 < reserve_in
            \<and> 0 < fee_modifier \<and> fee_modifier \<le> 10000 \<and> q \<le> 2 ^ 1023 * reserve_out"
  then have q: "0 < q" by linarith
  have den: "(reserve_out - q) * fee_modifier < 0"
    using a by (simp add: mult_neg_pos)
  have num: "0 < q * 10000 * reserve_in" using q a by simp
  show neg: "(q * 10000 * reserve_in) div ((reserve_out - q) * fee_modifier) < 0"
    using num den by (simp add: neg_imp_zdiv_neg_iff)
  have pd: "0 < reserve_out * (q * 10000 * reserve_in) * 10000" using a num by simp
  have pn: "reserve_out * (q * 10000 * reserve_in) * fee_modifier
              - q * ((reserve_out - q) * fee_modifier) * reserve_in * 10000
            = (q * 10000 * reserve_in) * (q * fee_modifier)"
    by (simp add: algebra_simps)
  have "q * fee_modifier \<le> q * 10000" using q a by simp
  also have "\<dots> \<le> (2 ^ 1023 * reserve_out) * 10000" using a by simp
  finally have "(q * 10000 * reserve_in) * (q * fee_modifier)
                  \<le> (q * 10000 * reserve_in) * (2 ^ 1023 * reserve_out * 10000)"
    using num by (intro mult_left_mono) auto
  moreover have "0 \<le> (q * 10000 * reserve_in) * (q * fee_modifier)" using num q a by simp
  ultimately have bound: "\<bar>(q * 10000 * reserve_in) * (q * fee_modifier)\<bar>
         \<le> 2 ^ 1023 * \<bar>reserve_out * (q * 10000 * reserve_in) * 10000\<bar>"
    using pd by (simp add: algebra_simps)
  have nz: "reserve_out * (q * 10000 * reserve_in) * 10000 \<noteq> 0" using pd by linarith
  obtain v where v: "int_true_divide ((q * 10000 * reserve_in) * (q * fee_modifier))
                    (reserve_out * (q * 10000 * reserve_in) * 10000) = Inr (Finite v)"
    using int_true_divide_finite[OF nz bound] by blast
  have "int_true_divide
                    (reserve_out * (q * 10000 * reserve_in) * fee_modifier
                       - q * ((reserve_out - q) * fee_modifier) * reserve_in * 10000)
                    (reserve_out * (q * 10000 * reserve_in) * 10000) = Inr (Finite v)"
    by (subst pn) (rule v)
  then show "\<exists>impact. get_amount_in self [(u, q)] precise =
               Inr ([(unit_out, (q * 10000 * reserve_in) div ((reserve_out - q) * fee_modifier))],
                    impact)"
    using single den a by (simp add: int_floor_divide_def bindE_def)
qed

text \<open>
  The hypotheses of the amended C3 hold on that pool for the desired outputs 100 and 300.
\<close>

theorem get_amount_in_beyond_reserve_witness:
  "get_amount_in small_pool [(''B'', 100)] True = Inl ZeroDivisionError
   \<and> (\<exists>impact. get_amount_in small_pool [(''B'', 300)] True
         = Inr ([(''A'', (300 * 10000 * 100) div ((100 - 300) * 10000))], impact))
   \<and> (300 * 10000 * 100) div ((100 - 300) * 10000) < (0::int)"
proof -
  have 1: "''B'' = unit_a small_pool \<or> ''B'' = unit_b small_pool"
    by (simp add: small_pool_def)
  have 2: "(100, 100, ''A'') =
       (if ''B'' = unit_b small_pool
        then (reserve_a small_pool, reserve_b small_pool, unit_a small_pool)
        else (reserve_b small_pool, reserve_a small_pool, unit_b small_pool))"
    by (simp add: small_pool_def)
  have 3: "10000 = 10000 - fee_or_0 (volume_fee small_pool)"
    by (simp add: small_pool_def fee_or_0_def)
  show ?thesis
    using get_amount_in_beyond_reserve[OF 1 2 3, of 100 True]
      get_amount_in_beyond_reserve[OF 1 2 3, of 300 True]
    by simp
qed

section \<open>The invariant solve\<close>

lemma bindE_Inr_right: "bindE m Inr = m"
  by (cases m) (simp_all add: bindE_def)

lemma bindE_assoc: "bindE (bindE m f) g = bindE m (\<lambda>x. bindE (f x) g)"
  by (cases m) (simp_all add: bindE_def)

lemma bindE_Inl: "bindE (Inl e) f = Inl e"
  by (simp add: bindE_def)

lemma bindE_Inr: "bindE (Inr x) f = f x"
  by (simp add: bindE_def)

lemma bindE_eq_Inr: "bindE m f = Inr y \<Longrightarrow> \<exists>x. m = Inr x \<and> f x = Inr y"
  by (cases m) (simp_all add: bindE_def)

lemma py_truediv_float: "py_truediv x y = Inr r \<Longrightarrow> \<exists>a. r = PyFloat a"
  by (cases "(x, y)" rule: py_truediv.cases) (auto dest!: bindE_eq_Inr)

lemma py_mul_float_left: "py_mul (PyFloat a) y = Inr r \<Longrightarrow> \<exists>b. r = PyFloat b"
  by (auto dest!: bindE_eq_Inr)

lemma py_mul_float_right: "py_mul x (PyFloat b) = Inr r \<Longrightarrow> \<exists>a. to_double x = Inr a"
  by (cases x) (auto dest!: bindE_eq_Inr)

lemma py_add_float_right: "py_add x (PyFloat b) = Inr r \<Longrightarrow> \<exists>c. r = PyFloat c"
  by (cases x) (auto dest!: bindE_eq_Inr)

lemma d_step_Inr:
  assumes "d_step powf ann s ra rb d = Inr d'"
  shows "\<exists>a b. d' = PyFloat a \<and> to_double d = Inr b"
proof -
  from assms obtain d3 d_p t1 t2 num t3 t4 den where
    "py_truediv d3 (PyInt (2 ^ nat 2 * ra * rb)) = Inr d_p"
    and t1: "py_mul d_p (PyInt 2) = Inr t1"
    and t2: "py_add (PyInt (ann * s)) t1 = Inr t2"
    and num: "py_mul d t2 = Inr num"
    and last: "py_truediv num den = Inr d'"
    unfolding d_step_def Let_def by (auto dest!: bindE_eq_Inr)
  then obtain a where "d_p = PyFloat a" using py_truediv_float by blast
  with t1 obtain b where "t1 = PyFloat b" using py_mul_float_left by blast
  with t2 obtain c where "t2 = PyFloat c" using py_add_float_right by blast
  with num obtain e where "to_double d = Inr e" using py_mul_float_right by blast
  moreover obtain f where "d' = PyFloat f" using last py_truediv_float by blast
  ultimately show ?thesis by blast
qed

lemma py_sub_after_step:
  assumes "d_step powf ann s ra rb d = Inr d'"
  shows "\<exists>diff. py_sub d' d = Inr diff"
proof -
  obtain a b where "d' = PyFloat a" "to_double d = Inr b"
    using d_step_Inr[OF assms] by blast
  then show ?thesis by (cases d) (auto simp: bindE_def)
qed

lemma d_iterate_Suc_shift:
  "d_iterate powf ann s ra rb d (Suc k) =
     bindE (d_step powf ann s ra rb d) (\<lambda>d'. d_iterate powf ann s ra rb d' k)"
proof (induction k)
  case 0
  show ?case by (simp add: bindE_Inr bindE_Inr_right)
next
  case (Suc k)
  have "d_iterate powf ann s ra rb d (Suc (Suc k)) =
          bindE (d_iterate powf ann s ra rb d (Suc k)) (d_step powf ann s ra rb)"
    by simp
  also have "\<dots> = bindE (d_step powf ann s ra rb d)
                     (\<lambda>d'. bindE (d_iterate powf ann s ra rb d' k) (d_step powf ann s ra rb))"
    by (simp only: Suc.IH bindE_assoc)
  finally show ?case by simp
qed

lemma find_map_Suc: "find P (map f xs) = map_option f (find (P \<circ> f) xs)"
  by (induction xs) simp_all

lemma get_d_loop_first:
  "get_d_loop powf ann s ra rb n d =
     (case find (\<lambda>k. within_tolerance (d_iterate powf ann s ra rb d (k - 1))
                                       (d_iterate powf ann s ra rb d k)) [1..<Suc n] of
        Some k \<Rightarrow> d_iterate powf ann s ra rb d k
      | None \<Rightarrow> d_iterate powf ann s ra rb d n)"
proof (induction n arbitrary: d)
  case 0
  show ?case by simp
next
  case (Suc n)
  let ?it = "d_iterate powf ann s ra rb"
  let ?P = "\<lambda>d k. within_tolerance (?it d (k - 1)) (?it d k)"
  show ?case
  proof (cases "d_step powf ann s ra rb d")
    case (Inl e)
    have it: "?it d (Suc k) = Inl e" for k
      by (simp only: d_iterate_Suc_shift Inl bindE_Inl)
    have "\<not> ?P d k" if "k \<in> set [1..<Suc (Suc n)]" for k
    proof -
      from that have "0 < k" by (simp del: upt_Suc)
      then obtain j where "k = Suc j" by (cases k) simp_all
      then show ?thesis using it[of j] by (simp add: within_tolerance_def split: sum.splits)
    qed
    then have "find (?P d) [1..<Suc (Suc n)] = None"
      by (simp only: find_None_iff) blast
    then show ?thesis using Inl it[of n] by (simp add: bindE_Inl)
  next
    case (Inr d')
    obtain diff where diff: "py_sub d' d = Inr diff"
      using py_sub_after_step[OF Inr] by blast
    have it1: "?it d (Suc 0) = Inr d'" using Inr by (simp add: bindE_Inr)
    have sh: "?it d (Suc k) = ?it d' k" for k
      by (simp only: d_iterate_Suc_shift Inr bindE_Inr)
    have P1: "?P d 1 = py_less_int (py_abs diff) 1"
      using it1 diff by (simp add: within_tolerance_def)
    have upt: "[1..<Suc (Suc n)] = 1 # map Suc [1..<Suc n]"
      by (simp only: map_Suc_upt upt_conv_Cons[of 1 "Suc (Suc n)"])
    show ?thesis
    proof (cases "py_less_int (py_abs diff) 1")
      case True
      then show ?thesis using Inr diff P1 it1 upt by (simp add: bindE_Inr)
    next
      case False
      have cong: "find (?P d \<circ> Suc) [1..<Suc n] = find (?P d') [1..<Suc n]"
      proof (rule find_cong[OF refl])
        fix k assume "k \<in> set [1..<Suc n]"
        then have "0 < k" by (simp del: upt_Suc)
        then obtain j where j: "k = Suc j" by (cases k) simp_all
        show "(?P d \<circ> Suc) k = ?P d' k"
          unfolding j comp_def by (simp only: sh diff_Suc_1)
      qed
      have "get_d_loop powf ann s ra rb (Suc n) d = get_d_loop powf ann s ra rb n d'"
        using Inr diff False by (simp add: bindE_Inr)
      also have "\<dots> = (case find (?P d') [1..<Suc n] of
                          Some k \<Rightarrow> ?it d' k | None \<Rightarrow> ?it d' n)"
        by (rule Suc.IH)
      also have "\<dots> = (case find (?P d) [1..<Suc (Suc n)] of
                          Some k \<Rightarrow> ?it d k | None \<Rightarrow> ?it d (Suc n))"
      proof -
        have "\<not> ?P d 1" using False P1 by simp
        then have "find (?P d) (1 # map Suc [1..<Suc n]) = find (?P d) (map Suc [1..<Suc n])"
          by (simp only: find.simps if_False)
        also have "\<dots> = map_option Suc (find (?P d \<circ> Suc) [1..<Suc n])"
          by (rule find_map_Suc)
        finally have f: "find (?P d) [1..<Suc (Suc n)]
                           = map_option Suc (find (?P d') [1..<Suc n])"
          by (simp only: upt cong)
        show ?thesis
          unfolding f
          by (cases "find (?P d') [1..<Suc n]") (simp_all only: option.map option.case sh)
      qed
      finally show ?thesis .
    qed
  qed
qed

lemma get_d_refines_compute_D:
  "get_d powf self =
     compute_D powf (get_ann self) (stable_reserve_a self) (stable_reserve_b self)"
proof -
  have e: "(257::nat) = Suc 256" by simp
  show ?thesis
    unfolding get_d_def compute_D_def Let_def e get_d_loop_first ..
qed


















section \<open>Exact and nearly exact rounding\<close>

lemma round_half_even_of_int: "round_half_even (of_int m) = m"
  by (simp add: round_half_even_def)

lemma round_double_on_grid:
  assumes "x \<noteq> 0"
    and "x / pow2 (max (floor_log2 \<bar>x\<bar>) (- 1022) - 52) = of_int m"
    and "\<bar>x\<bar> < 2 ^ 1024"
  shows "round_double x = Finite x"
proof -
  define u where "u = pow2 (max (floor_log2 \<bar>x\<bar>) (- 1022) - 52)"
  have u0: "u \<noteq> 0" using pow2_pos[of "max (floor_log2 \<bar>x\<bar>) (- 1022) - 52"] by (simp add: u_def)
  have "of_int (round_half_even (x / u)) * u = x"
    using assms(2) u0 by (simp add: u_def[symmetric] round_half_even_of_int field_simps)
  then show ?thesis
    using assms(1,3) by (simp add: round_double_def Let_def u_def[symmetric])
qed

lemma round_double_of_int:
  assumes "\<bar>n\<bar> \<le> 2 ^ 53"
  shows "round_double (of_int n) = Finite (of_int n)"
proof (cases "n = 0")
  case True
  then show ?thesis by (simp add: round_double_def)
next
  case False
  define x :: rat where "x = of_int n"
  define e where "e = max (floor_log2 \<bar>x\<bar>) (- 1022)"
  have x0: "x \<noteq> 0" using False by (simp add: x_def)
  have xle: "\<bar>x\<bar> \<le> 2 ^ 53"
  proof -
    have "(of_int \<bar>n\<bar> :: rat) \<le> of_int (2 ^ 53)" using assms by (simp only: of_int_le_iff)
    then show ?thesis by (simp add: x_def)
  qed
  have "pow2 (floor_log2 \<bar>x\<bar>) \<le> pow2 53"
    using floor_log2_le[of "\<bar>x\<bar>"] x0 xle by (simp add: pow2_def)
  then have "floor_log2 \<bar>x\<bar> \<le> 53" by (rule pow2_le_D)
  then have e53: "e \<le> 53" by (simp add: e_def)
  have "\<exists>m. x / pow2 (e - 52) = of_int m"
  proof (cases "e \<le> 52")
    case True
    then have "pow2 (e - 52) = 1 / 2 ^ nat (52 - e)"
      by (cases "e = 52") (simp_all add: pow2_def)
    then have "x / pow2 (e - 52) = of_int (n * 2 ^ nat (52 - e))"
      by (simp add: x_def)
    then show ?thesis by blast
  next
    case False
    with e53 have e: "e = 53" by simp
    then have "floor_log2 \<bar>x\<bar> = 53" by (simp add: e_def max_def split: if_splits)
    then have "pow2 53 \<le> \<bar>x\<bar>" using floor_log2_le[of "\<bar>x\<bar>"] x0 by simp
    with xle have "\<bar>x\<bar> = 2 ^ 53" by (simp add: pow2_def)
    then have "x = 2 ^ 53 \<or> x = - (2 ^ 53)" by (simp add: abs_if split: if_splits)
    then have "x / pow2 (e - 52) = of_int (2 ^ 52) \<or> x / pow2 (e - 52) = of_int (- (2 ^ 52))"
      unfolding e by (auto simp: pow2_def)
    then show ?thesis by blast
  qed
  then obtain m where "x / pow2 (max (floor_log2 \<bar>x\<bar>) (- 1022) - 52) = of_int m"
    by (auto simp: e_def)
  moreover have "\<bar>x\<bar> < 2 ^ 1024" using xle by simp
  ultimately have "round_double x = Finite x" using x0 by (intro round_double_on_grid)
  then show ?thesis by (simp add: x_def)
qed

lemma int_to_double_exact: "\<bar>n\<bar> \<le> 2 ^ 53 \<Longrightarrow> int_to_double n = Inr (Finite (of_int n))"
  by (simp add: int_to_double_def round_double_of_int)

lemma round_double_rel:
  assumes "pow2 (- 1022) \<le> \<bar>x\<bar>" and "\<bar>x\<bar> \<le> 2 ^ 1023"
  shows "\<exists>v. round_double x = Finite v \<and> \<bar>v - x\<bar> \<le> \<bar>x\<bar> / 2 ^ 53"
proof -
  define e where "e = max (floor_log2 \<bar>x\<bar>) (- 1022)"
  define u where "u = pow2 (e - 52)"
  define v where "v = of_int (round_half_even (x / u)) * u"
  have x0: "x \<noteq> 0" using assms(1) pow2_pos[of "- 1022"] by auto
  have "pow2 (floor_log2 \<bar>x\<bar>) \<le> \<bar>x\<bar>" using floor_log2_le[of "\<bar>x\<bar>"] x0 by simp
  then have pe: "pow2 e \<le> \<bar>x\<bar>" using assms(1) by (simp add: e_def max_def)
  have u0: "0 < u" by (simp add: u_def pow2_pos)
  have uhalf: "u / 2 = pow2 e / 2 ^ 53"
    using pow2_diff[of e 52] by (simp add: u_def pow2_def)
  have "v - x = (of_int (round_half_even (x / u)) - x / u) * u"
    using u0 by (simp add: v_def left_diff_distrib)
  then have "\<bar>v - x\<bar> = \<bar>of_int (round_half_even (x / u)) - x / u\<bar> * u"
    using u0 by (simp add: abs_mult)
  also have "\<dots> \<le> 1 / 2 * u"
    using round_half_even_near[of "x / u"] u0 by (intro mult_right_mono) auto
  also have "\<dots> = pow2 e / 2 ^ 53" using uhalf by simp
  also have "\<dots> \<le> \<bar>x\<bar> / 2 ^ 53" using pe by (simp add: divide_right_mono)
  finally have err: "\<bar>v - x\<bar> \<le> \<bar>x\<bar> / 2 ^ 53" .
  obtain w where w: "round_double x = Finite w" using round_double_finite[OF assms(2)] by blast
  have "w = v"
    using w x0 by (simp add: round_double_def Let_def e_def[symmetric] u_def[symmetric]
        v_def[symmetric] split: if_splits)
  with w err show ?thesis by blast
qed

lemma round_double_abs_small:
  assumes "\<bar>x\<bar> \<le> 1"
  shows "\<exists>v. round_double x = Finite v \<and> \<bar>v - x\<bar> \<le> 1 / 2 ^ 53"
proof (cases "x = 0")
  case True
  then show ?thesis by (simp add: round_double_def)
next
  case False
  define e where "e = max (floor_log2 \<bar>x\<bar>) (- 1022)"
  define u where "u = pow2 (e - 52)"
  define v where "v = of_int (round_half_even (x / u)) * u"
  have "pow2 (floor_log2 \<bar>x\<bar>) \<le> pow2 0"
    using floor_log2_le[of "\<bar>x\<bar>"] False assms by (simp add: pow2_def)
  then have "floor_log2 \<bar>x\<bar> \<le> 0" by (rule pow2_le_D)
  then have "e \<le> 0" by (simp add: e_def)
  then have "u \<le> pow2 (- 52)" unfolding u_def by (intro pow2_mono) simp
  then have u1: "u \<le> 1 / 2 ^ 52" by (simp add: pow2_def)
  have u0: "0 < u" by (simp add: u_def pow2_pos)
  have "v - x = (of_int (round_half_even (x / u)) - x / u) * u"
    using u0 by (simp add: v_def left_diff_distrib)
  then have "\<bar>v - x\<bar> = \<bar>of_int (round_half_even (x / u)) - x / u\<bar> * u"
    using u0 by (simp add: abs_mult)
  also have "\<dots> \<le> 1 / 2 * u"
    using round_half_even_near[of "x / u"] u0 by (intro mult_right_mono) auto
  finally have err: "\<bar>v - x\<bar> \<le> 1 / 2 ^ 53" using u1 by simp
  have "\<bar>x\<bar> \<le> 2 ^ 1023" using assms by simp
  then obtain w where w: "round_double x = Finite w" using round_double_finite by blast
  have "w = v"
    using w False by (simp add: round_double_def Let_def e_def[symmetric] u_def[symmetric]
        v_def[symmetric] split: if_splits)
  with w err show ?thesis by blast
qed

lemma int_true_divide_exact:
  assumes "b \<noteq> 0" "a = q * b" "\<bar>q\<bar> \<le> 2 ^ 53"
  shows "int_true_divide a b = Inr (Finite (of_int q))"
proof -
  have "(of_int a :: rat) / of_int b = of_int q" using assms(1,2) by simp
  then show ?thesis using assms(1,3) by (simp add: int_true_divide_def round_double_of_int)
qed

lemma fmul_of_int:
  "\<bar>m * n\<bar> \<le> 2 ^ 53 \<Longrightarrow> fmul (Finite (of_int m)) (Finite (of_int n)) = Finite (of_int (m * n))"
  using round_double_of_int[of "m * n"] by simp

lemma fadd_of_int:
  "\<bar>m + n\<bar> \<le> 2 ^ 53 \<Longrightarrow> fadd (Finite (of_int m)) (Finite (of_int n)) = Finite (of_int (m + n))"
  using round_double_of_int[of "m + n"] by simp

lemma fdiv_of_int:
  assumes "n \<noteq> 0" "m = q * n" "\<bar>q\<bar> \<le> 2 ^ 53"
  shows "fdiv (Finite (of_int m)) (Finite (of_int n)) = Finite (of_int q)"
proof -
  have "(of_int m :: rat) / of_int n = of_int q" using assms(1,2) by simp
  then show ?thesis using round_double_of_int[OF assms(3)] by simp
qed

lemma d_step_balanced_exact:
  assumes r: "0 < r" and a: "1 \<le> ann" and bound: "(ann + 2) * 4 * r\<^sup>2 \<le> 2 ^ 53"
  shows "d_step powf ann (r + r) r r (PyInt (r + r)) = Inr (PyFloat (Finite (of_int (2 * r))))"
proof -
  have r1: "1 \<le> r" using r by simp
  have rr: "r \<le> r\<^sup>2" using r1 by (simp add: power2_eq_square)
  have r2pos: "0 < r\<^sup>2" using r by simp
  have big: "(ann + 2) * 4 * r \<le> 2 ^ 53"
  proof -
    have "(ann + 2) * 4 * r \<le> (ann + 2) * 4 * r\<^sup>2" using rr a by (intro mult_left_mono) auto
    then show ?thesis using bound by linarith
  qed
  have ar: "r \<le> ann * r" using a r by simp
  have ar0: "0 \<le> ann * r" using a r by simp
  have P: "ann * (r + r) = 2 * (ann * r)" "(ann - 1) * (r + r) = 2 * (ann * r) - 2 * r"
    "(ann + 2) * 4 * r = 4 * (ann * r) + 8 * r"
    by (simp_all add: algebra_simps)
  have b2r: "\<bar>2 * r\<bar> \<le> 2 ^ 53" using big ar r unfolding P by linarith
  have b2r': "\<bar>r + r\<bar> \<le> 2 ^ 53" using b2r by simp
  have b4r: "\<bar>2 * r * 2\<bar> \<le> 2 ^ 53" using big ar r unfolding P by linarith
  have bA: "\<bar>ann * (r + r)\<bar> \<le> 2 ^ 53" using big ar0 r unfolding P by linarith
  have bt2: "\<bar>ann * (r + r) + 2 * r * 2\<bar> \<le> 2 ^ 53" using big ar0 r unfolding P by linarith
  have bnum: "\<bar>(r + r) * (ann * (r + r) + 2 * r * 2)\<bar> \<le> 2 ^ 53"
  proof -
    have "(r + r) * (ann * (r + r) + 2 * r * 2) = (ann + 2) * 4 * r\<^sup>2"
      by (simp add: algebra_simps power2_eq_square)
    moreover have "0 \<le> (ann + 2) * 4 * r\<^sup>2" using a by simp
    ultimately show ?thesis using bound by simp
  qed
  have bt3: "\<bar>(ann - 1) * (r + r)\<bar> \<le> 2 ^ 53" using big ar r unfolding P by linarith
  have bt4: "\<bar>3 * (2 * r)\<bar> \<le> 2 ^ 53" using big ar r unfolding P by linarith
  have bden: "\<bar>(ann - 1) * (r + r) + 3 * (2 * r)\<bar> \<le> 2 ^ 53"
    using big ar0 r unfolding P by linarith
  have den0: "(ann - 1) * (r + r) + 3 * (2 * r) \<noteq> 0" using ar r unfolding P by linarith
  have s1: "py_truediv (PyInt ((r + r) ^ 3)) (PyInt (2 ^ nat 2 * r * r))
              = Inr (PyFloat (Finite (of_int (2 * r))))"
  proof -
    have "int_true_divide ((r + r) ^ 3) (2 ^ nat 2 * r * r) = Inr (Finite (of_int (2 * r)))"
      using r by (intro int_true_divide_exact b2r) (simp_all add: power3_eq_cube algebra_simps)
    then show ?thesis by (simp add: bindE_def)
  qed
  have c2: "int_to_double 2 = Inr (Finite (of_int 2))" by (rule int_to_double_exact) simp
  have c3: "int_to_double 3 = Inr (Finite (of_int 3))" by (rule int_to_double_exact) simp
  have s2: "py_mul (PyFloat (Finite (of_int (2 * r)))) (PyInt 2)
              = Inr (PyFloat (Finite (of_int (2 * r * 2))))"
    using fmul_of_int[OF b4r] c2 by (simp add: bindE_def)
  have s3: "py_add (PyInt (ann * (r + r))) (PyFloat (Finite (of_int (2 * r * 2))))
              = Inr (PyFloat (Finite (of_int (ann * (r + r) + 2 * r * 2))))"
    using fadd_of_int[OF bt2] int_to_double_exact[OF bA] by (simp add: bindE_def)
  have s4: "py_mul (PyInt (r + r)) (PyFloat (Finite (of_int (ann * (r + r) + 2 * r * 2))))
              = Inr (PyFloat (Finite (of_int ((r + r) * (ann * (r + r) + 2 * r * 2)))))"
    using fmul_of_int[OF bnum] int_to_double_exact[OF b2r'] by (simp add: bindE_def)
  have s5: "py_mul (PyInt (ann - 1)) (PyInt (r + r)) = Inr (PyInt ((ann - 1) * (r + r)))"
    by simp
  have s6: "py_mul (PyInt 3) (PyFloat (Finite (of_int (2 * r))))
              = Inr (PyFloat (Finite (of_int (3 * (2 * r)))))"
    using fmul_of_int[OF bt4] c3 by (simp add: bindE_def)
  have s7: "py_add (PyInt ((ann - 1) * (r + r))) (PyFloat (Finite (of_int (3 * (2 * r)))))
              = Inr (PyFloat (Finite (of_int ((ann - 1) * (r + r) + 3 * (2 * r)))))"
    using fadd_of_int[OF bden] int_to_double_exact[OF bt3] by (simp add: bindE_def)
  have s8: "py_truediv (PyFloat (Finite (of_int ((r + r) * (ann * (r + r) + 2 * r * 2)))))
                (PyFloat (Finite (of_int ((ann - 1) * (r + r) + 3 * (2 * r)))))
              = Inr (PyFloat (Finite (of_int (2 * r))))"
  proof -
    have "fdiv (Finite (of_int ((r + r) * (ann * (r + r) + 2 * r * 2))))
               (Finite (of_int ((ann - 1) * (r + r) + 3 * (2 * r)))) = Finite (of_int (2 * r))"
      by (intro fdiv_of_int den0 b2r) (simp add: algebra_simps)
    moreover have "Finite (of_int ((ann - 1) * (r + r) + 3 * (2 * r))) \<noteq> Finite 0"
      by (simp only: double.inject of_int_eq_0_iff den0 not_False_eq_True)
    ultimately show ?thesis by (simp add: bindE_def float_div_def)
  qed
  have n3: "(2::int) + 1 = 3" by simp
  show ?thesis
    unfolding d_step_def Let_def py_pow.simps bindE_Inr s1 s2 s3 s4 s5 n3 s6 s7 s8 ..
qed

lemma round_double_pos_bounds:
  assumes "1 \<le> x" "x \<le> 2 ^ 1023"
  obtains v where "round_double x = Finite v"
    and "x * (1 - 1 / 2 ^ 53) \<le> v" and "v \<le> x * (1 + 1 / 2 ^ 53)"
proof -
  have "pow2 (- 1022) \<le> \<bar>x\<bar>"
  proof -
    have "pow2 (- 1022) \<le> pow2 0" by (rule pow2_mono) simp
    then show ?thesis using assms(1) by (simp add: pow2_def)
  qed
  moreover have "\<bar>x\<bar> \<le> 2 ^ 1023" using assms by simp
  ultimately obtain v where v: "round_double x = Finite v" "\<bar>v - x\<bar> \<le> \<bar>x\<bar> / 2 ^ 53"
    using round_double_rel by blast
  have ax: "\<bar>x\<bar> = x" using assms(1) by simp
  have "\<bar>v - x\<bar> \<le> x / 2 ^ 53" using v(2) by (simp only: ax)
  then have "x - x / 2 ^ 53 \<le> v" "v \<le> x + x / 2 ^ 53" by linarith+
  moreover have "x * (1 - 1 / 2 ^ 53) = x - x / 2 ^ 53" "x * (1 + 1 / 2 ^ 53) = x + x / 2 ^ 53"
    by (simp_all add: algebra_simps)
  ultimately have "x * (1 - 1 / 2 ^ 53) \<le> v" "v \<le> x * (1 + 1 / 2 ^ 53)"
    by (simp_all only:)
  with v(1) that show thesis by blast
qed

lemma int_to_double_pos_bounds:
  assumes "1 \<le> n" "n \<le> 2 ^ 1023"
  obtains v where "int_to_double n = Inr (Finite v)"
    and "of_int n * (1 - 1 / 2 ^ 53) \<le> v" and "v \<le> of_int n * (1 + 1 / 2 ^ 53)"
proof -
  have 1: "(1::rat) \<le> of_int n" using assms(1) by simp
  have "(of_int n :: rat) \<le> of_int (2 ^ 1023)" using assms(2) by (simp only: of_int_le_iff)
  then have 2: "(of_int n :: rat) \<le> 2 ^ 1023" by simp
  obtain v where "round_double (of_int n) = Finite v"
    "of_int n * (1 - 1 / 2 ^ 53) \<le> v" "v \<le> of_int n * (1 + 1 / 2 ^ 53)"
    using round_double_pos_bounds[OF 1 2] by blast
  then show thesis using that by (simp add: int_to_double_def)
qed

lemma roundoff_four_up: "(1 + 1 / 2 ^ 53) ^ 4 / (1 - 1 / 2 ^ 53) ^ 2 \<le> 1 + 7 / (2 ^ 53 :: rat)"
  by (simp add: field_simps)

lemma roundoff_four_down: "1 - 7 / (2 ^ 53 :: rat) \<le> (1 - 1 / 2 ^ 53) ^ 4 / (1 + 1 / 2 ^ 53) ^ 2"
  by (simp add: field_simps)

lemma d_step_balanced_near:
  assumes r: "0 < r" "r \<le> 2 ^ 49" and a: "2 \<le> ann" "ann \<le> 300"
  shows "\<exists>v. d_step powf ann (r + r) r r (PyInt (r + r)) = Inr (PyFloat (Finite v))
             \<and> \<bar>v - of_int (2 * r)\<bar> \<le> 7 / 8"
proof -
  let ?om = "1 - 1 / 2 ^ 53 :: rat"
  let ?op = "1 + 1 / 2 ^ 53 :: rat"
  define R :: rat where "R = of_int r"
  define C :: rat where "C = of_int ((2 * ann + 4) * r)"
  have R1: "1 \<le> R" using r(1) by (simp add: R_def)
  have R2: "R \<le> 2 ^ 49"
  proof -
    have "(of_int r :: rat) \<le> of_int (2 ^ 49)" using r(2) by (simp only: of_int_le_iff)
    then show ?thesis by (simp add: R_def)
  qed
  have Cann: "C = (2 * of_int ann + 4) * R" by (simp add: C_def R_def)
  have "2 \<le> (of_int ann :: rat)" "(of_int ann :: rat) \<le> 300" using a by simp_all
  then have "8 * R \<le> (2 * of_int ann + 4) * R" "(2 * of_int ann + 4) * R \<le> 604 * R"
    using R1 by (simp_all add: mult_right_mono)
  then have C8: "8 * R \<le> C" and C604: "C \<le> 604 * R" by (simp_all add: Cann)
  have C0: "0 < C" using C8 R1 by linarith
  have b2r: "\<bar>2 * r\<bar> \<le> 2 ^ 53" "\<bar>r + r\<bar> \<le> 2 ^ 53" "\<bar>2 * r * 2\<bar> \<le> 2 ^ 53"
    "\<bar>3 * (2 * r)\<bar> \<le> 2 ^ 53"
    using r by simp_all
  have ar: "2 * r \<le> ann * r" "ann * r \<le> 300 * r" using a r by simp_all
  have s1: "py_truediv (PyInt ((r + r) ^ 3)) (PyInt (2 ^ nat 2 * r * r))
              = Inr (PyFloat (Finite (of_int (2 * r))))"
  proof -
    have "int_true_divide ((r + r) ^ 3) (2 ^ nat 2 * r * r) = Inr (Finite (of_int (2 * r)))"
      using r by (intro int_true_divide_exact b2r) (simp_all add: power3_eq_cube algebra_simps)
    then show ?thesis by (simp add: bindE_def)
  qed
  have c2: "int_to_double 2 = Inr (Finite (of_int 2))" by (rule int_to_double_exact) simp
  have c3: "int_to_double 3 = Inr (Finite (of_int 3))" by (rule int_to_double_exact) simp
  have s2: "py_mul (PyFloat (Finite (of_int (2 * r)))) (PyInt 2)
              = Inr (PyFloat (Finite (of_int (2 * r * 2))))"
    using fmul_of_int[OF b2r(3)] c2 by (simp add: bindE_def)
  \<comment> \<open>\<open>ann * s + d_p * n_coins\<close>\<close>
  have P: "ann * (r + r) = 2 * (ann * r)" "(ann - 1) * (r + r) = 2 * (ann * r) - 2 * r"
    by (simp_all add: algebra_simps)
  have n1: "1 \<le> ann * (r + r)" "ann * (r + r) \<le> 2 ^ 1023"
  proof -
    show "1 \<le> ann * (r + r)" unfolding P using ar r by linarith
    have "ann * (r + r) \<le> 600 * 2 ^ 49" unfolding P using ar r by linarith
    also have "\<dots> \<le> 2 ^ 1023" by simp
    finally show "ann * (r + r) \<le> 2 ^ 1023" .
  qed
  obtain A where A: "int_to_double (ann * (r + r)) = Inr (Finite A)"
    "of_int (ann * (r + r)) * ?om \<le> A" "A \<le> of_int (ann * (r + r)) * ?op"
    using int_to_double_pos_bounds[OF n1] by blast
  have An: "(of_int (ann * (r + r)) :: rat) = C - 4 * R"
    by (simp add: C_def R_def algebra_simps)
  have x2: "1 \<le> A + 4 * R" "A + 4 * R \<le> 2 ^ 1023"
    "C * ?om \<le> A + 4 * R" "A + 4 * R \<le> C * ?op"
    using A(2,3) R1 R2 C8 C604 unfolding An by simp_all
  obtain t2 where t2: "round_double (A + 4 * R) = Finite t2"
    "(A + 4 * R) * ?om \<le> t2" "t2 \<le> (A + 4 * R) * ?op"
    using round_double_pos_bounds[OF x2(1,2)] by blast
  have t2b: "C * ?om ^ 2 \<le> t2" "t2 \<le> C * ?op ^ 2"
    using t2(2,3) x2(3,4) by (simp_all add: power2_eq_square)
  have s3: "py_add (PyInt (ann * (r + r))) (PyFloat (Finite (of_int (2 * r * 2))))
              = Inr (PyFloat (Finite t2))"
  proof -
    have "(of_int (2 * r * 2) :: rat) = 4 * R" by (simp add: R_def)
    then show ?thesis using A(1) t2(1) by (simp add: bindE_def add.commute)
  qed
  \<comment> \<open>\<open>d * (ann * s + d_p * n_coins)\<close>\<close>
  have t2r: "1 \<le> t2" "t2 \<le> 2 ^ 60"
    using t2b C8 C604 R1 R2 by (simp_all add: power2_eq_square)
  have x3: "1 \<le> 2 * R * t2" "2 * R * t2 \<le> 2 ^ 1023"
  proof -
    have "1 * 1 \<le> (2 * R) * t2" using R1 t2r(1) by (intro mult_mono) auto
    then show "1 \<le> 2 * R * t2" by simp
    have "(2 * R) * t2 \<le> 2 ^ 50 * 2 ^ 60" using R1 R2 t2r by (intro mult_mono) auto
    then show "2 * R * t2 \<le> 2 ^ 1023" by simp
  qed
  have x3b: "2 * (R * C) * ?om ^ 2 \<le> 2 * R * t2" "2 * R * t2 \<le> 2 * (R * C) * ?op ^ 2"
  proof -
    have "(2 * R) * (C * ?om ^ 2) \<le> (2 * R) * t2" using t2b(1) R1 by (intro mult_left_mono) auto
    then show "2 * (R * C) * ?om ^ 2 \<le> 2 * R * t2" by (simp only: mult_ac)
    have "(2 * R) * t2 \<le> (2 * R) * (C * ?op ^ 2)" using t2b(2) R1 by (intro mult_left_mono) auto
    then show "2 * R * t2 \<le> 2 * (R * C) * ?op ^ 2" by (simp only: mult_ac)
  qed
  obtain num where num: "round_double (2 * R * t2) = Finite num"
    "(2 * R * t2) * ?om \<le> num" "num \<le> (2 * R * t2) * ?op"
    using round_double_pos_bounds[OF x3] by blast
  have numb: "2 * (R * C) * ?om ^ 3 \<le> num" "num \<le> 2 * (R * C) * ?op ^ 3"
    using num(2,3) x3b by (simp_all add: power2_eq_square power3_eq_cube)
  have s4: "py_mul (PyInt (r + r)) (PyFloat (Finite t2)) = Inr (PyFloat (Finite num))"
  proof -
    have "(of_int (r + r) :: rat) = 2 * R" by (simp add: R_def)
    then show ?thesis using int_to_double_exact[OF b2r(2)] num(1) by (simp add: bindE_def)
  qed
  have s5: "py_mul (PyInt (ann - 1)) (PyInt (r + r)) = Inr (PyInt ((ann - 1) * (r + r)))"
    by simp
  have s6: "py_mul (PyInt 3) (PyFloat (Finite (of_int (2 * r))))
              = Inr (PyFloat (Finite (of_int (3 * (2 * r)))))"
    using fmul_of_int[OF b2r(4)] c3 by (simp add: bindE_def)
  \<comment> \<open>\<open>(ann - 1) * d + (n_coins + 1) * d_p\<close>\<close>
  have n3: "1 \<le> (ann - 1) * (r + r)" "(ann - 1) * (r + r) \<le> 2 ^ 1023"
  proof -
    show "1 \<le> (ann - 1) * (r + r)" unfolding P using ar r by linarith
    have "(ann - 1) * (r + r) \<le> 600 * 2 ^ 49" unfolding P using ar r by linarith
    also have "\<dots> \<le> 2 ^ 1023" by simp
    finally show "(ann - 1) * (r + r) \<le> 2 ^ 1023" .
  qed
  obtain T where T: "int_to_double ((ann - 1) * (r + r)) = Inr (Finite T)"
    "of_int ((ann - 1) * (r + r)) * ?om \<le> T" "T \<le> of_int ((ann - 1) * (r + r)) * ?op"
    using int_to_double_pos_bounds[OF n3] by blast
  have Tn: "(of_int ((ann - 1) * (r + r)) :: rat) = C - 6 * R"
    by (simp add: C_def R_def algebra_simps)
  have x4: "1 \<le> T + 6 * R" "T + 6 * R \<le> 2 ^ 1023"
    "C * ?om \<le> T + 6 * R" "T + 6 * R \<le> C * ?op"
    using T(2,3) R1 R2 C8 C604 unfolding Tn by simp_all
  obtain den where den: "round_double (T + 6 * R) = Finite den"
    "(T + 6 * R) * ?om \<le> den" "den \<le> (T + 6 * R) * ?op"
    using round_double_pos_bounds[OF x4(1,2)] by blast
  have denb: "C * ?om ^ 2 \<le> den" "den \<le> C * ?op ^ 2"
    using den(2,3) x4(3,4) by (simp_all add: power2_eq_square)
  have s7: "py_add (PyInt ((ann - 1) * (r + r))) (PyFloat (Finite (of_int (3 * (2 * r)))))
              = Inr (PyFloat (Finite den))"
  proof -
    have "(of_int (3 * (2 * r)) :: rat) = 6 * R" by (simp add: R_def)
    then show ?thesis using T(1) den(1) by (simp add: bindE_def add.commute)
  qed
  \<comment> \<open>the quotient\<close>
  have RC0: "0 < R * C" using R1 C0 by simp
  have den0: "0 < den"
  proof -
    have "0 < C * ?om ^ 2" using C0 by simp
    then show ?thesis using denb(1) by linarith
  qed
  have num0: "0 \<le> num"
  proof -
    have "0 \<le> 2 * (R * C) * ?om ^ 3" using RC0 by simp
    then show ?thesis using numb(1) by linarith
  qed
  define kl :: rat where "kl = ?om ^ 3 / ?op ^ 2"
  define kh :: rat where "kh = ?op ^ 3 / ?om ^ 2"
  have kl: "1 / 2 \<le> kl" "1 - 7 / 2 ^ 53 \<le> kl * ?om"
    using roundoff_four_down by (simp_all add: kl_def field_simps)
  have kh: "kh \<le> 2" "kh * ?op \<le> 1 + 7 / 2 ^ 53"
    using roundoff_four_up by (simp_all add: kh_def field_simps)
  have q_hi: "num / den \<le> 2 * R * kh"
  proof -
    have "0 \<le> 2 * (R * C) * ?op ^ 3" "0 < C * ?om ^ 2" using RC0 C0 by simp_all
    then have "num / den \<le> (2 * (R * C) * ?op ^ 3) / (C * ?om ^ 2)"
      using numb(2) denb(1) by (intro frac_le)
    also have "\<dots> = 2 * R * kh" using C0 by (simp add: kh_def)
    finally show ?thesis .
  qed
  have q_lo: "2 * R * kl \<le> num / den"
  proof -
    have "(2 * (R * C) * ?om ^ 3) / (C * ?op ^ 2) \<le> num / den"
      using numb(1) denb(2) den0 num0 by (intro frac_le)
    moreover have "(2 * (R * C) * ?om ^ 3) / (C * ?op ^ 2) = 2 * R * kl"
      using C0 by (simp add: kl_def)
    ultimately show ?thesis by simp
  qed
  have R0: "0 \<le> 2 * R" using R1 by simp
  have x5: "1 \<le> num / den" "num / den \<le> 2 ^ 1023"
  proof -
    have a1: "2 * R * (1 / 2) \<le> 2 * R * kl" using kl(1) R0 by (rule mult_left_mono)
    have a2: "2 * R * (1 / 2) = R" by simp
    show "1 \<le> num / den" using a1 a2 q_lo R1 by linarith
    have b1: "2 * R * kh \<le> 2 * R * 2" using kh(1) R0 by (rule mult_left_mono)
    have b2: "2 * R * 2 \<le> 2 ^ 51" using R2 by simp
    have "num / den \<le> 2 ^ 51" using b1 b2 q_hi by linarith
    also have "(2::rat) ^ 51 \<le> 2 ^ 1023" by simp
    finally show "num / den \<le> 2 ^ 1023" .
  qed
  obtain v where v: "round_double (num / den) = Finite v"
    "(num / den) * ?om \<le> v" "v \<le> (num / den) * ?op"
    using round_double_pos_bounds[OF x5] by blast
  have hi: "v \<le> 2 * R * (1 + 7 / 2 ^ 53)"
  proof -
    have "(num / den) * ?op \<le> (2 * R * kh) * ?op" using q_hi by (intro mult_right_mono) auto
    also have "\<dots> = 2 * R * (kh * ?op)" by (simp only: mult.assoc)
    also have "\<dots> \<le> 2 * R * (1 + 7 / 2 ^ 53)" using kh(2) R0 by (rule mult_left_mono)
    finally show ?thesis using v(3) by linarith
  qed
  have lo: "2 * R * (1 - 7 / 2 ^ 53) \<le> v"
  proof -
    have "2 * R * (1 - 7 / 2 ^ 53) \<le> 2 * R * (kl * ?om)" using kl(2) R0 by (rule mult_left_mono)
    also have "\<dots> = (2 * R * kl) * ?om" by (simp only: mult.assoc)
    also have "\<dots> \<le> (num / den) * ?om" using q_lo by (intro mult_right_mono) auto
    finally show ?thesis using v(2) by linarith
  qed
  have c1: "v - 2 * R \<le> 7 / 8" using hi R1 R2 by simp
  have c2: "- (7 / 8) \<le> v - 2 * R" using lo R1 R2 by simp
  have "\<bar>v - 2 * R\<bar> \<le> 7 / 8" using c1 c2 by linarith
  then have near: "\<bar>v - of_int (2 * r)\<bar> \<le> 7 / 8" by (simp add: R_def)
  have s8: "py_truediv (PyFloat (Finite num)) (PyFloat (Finite den)) = Inr (PyFloat (Finite v))"
  proof -
    have "Finite den \<noteq> Finite 0" using den0 by simp
    then show ?thesis using v(1) by (simp add: bindE_def float_div_def)
  qed
  have n21: "(2::int) + 1 = 3" by simp
  have "d_step powf ann (r + r) r r (PyInt (r + r)) = Inr (PyFloat (Finite v))"
    unfolding d_step_def Let_def py_pow.simps bindE_Inr s1 s2 s3 s4 s5 n21 s6 s7 s8 ..
  with near show ?thesis by blast
qed

lemma pow2_add: "pow2 (a + b) = pow2 a * pow2 b"
  by (simp add: pow2_powi power_int_add)

lemma floor_log2_less:
  assumes "0 < x"
  shows "x < pow2 (floor_log2 x + 1)"
proof -
  obtain p q where pq: "quotient_of x = (p, q)" by (cases "quotient_of x")
  have q: "0 < q" using pq quotient_of_denom_pos by blast
  have x: "x = of_int p / of_int q" using pq quotient_of_div by blast
  have p: "0 < p" using assms q x by (simp add: zero_less_divide_iff)
  define k where "k = bitlen p - bitlen q"
  let ?t = "if 0 \<le> k then q * 2 ^ nat k \<le> p else q \<le> p * 2 ^ nat (- k)"
  have fl: "floor_log2 x = (if ?t then k else k - 1)"
    by (simp add: floor_log2_def pq k_def Let_def)
  show ?thesis
  proof (cases ?t)
    case True
    have bp: "p < 2 ^ nat (bitlen p)" using bitlen_bounds[OF p] by simp
    have bq: "2 ^ nat (bitlen q - 1) \<le> q" using bitlen_bounds[OF q] by simp
    have bq1: "1 \<le> bitlen q" using q by (simp add: bitlen_alt_def)
    have "of_int p < pow2 (bitlen p)"
      using bp bitlen_nonneg[of p] by (simp add: pow2_nat)
    moreover have "pow2 (bitlen q - 1) \<le> of_int q"
      using bq bq1 by (simp add: pow2_nat)
    ultimately have "of_int p / of_int q < pow2 (bitlen p) / pow2 (bitlen q - 1)"
      using q p pow2_pos[of "bitlen q - 1"] by (intro frac_less) auto
    moreover have "pow2 (k + 1) = pow2 (bitlen p) / pow2 (bitlen q - 1)"
      unfolding k_def using pow2_diff[of "bitlen p" "bitlen q - 1"] by (simp add: algebra_simps)
    ultimately show ?thesis using True fl x by simp
  next
    case False
    show ?thesis
    proof (cases "0 \<le> k")
      case k0: True
      with False have "p < q * 2 ^ nat k" by simp
      then have "(of_int p :: rat) < of_int q * 2 ^ nat k"
        by (metis of_int_less_iff of_int_mult of_int_numeral of_int_power)
      then have "of_int p / of_int q < (2::rat) ^ nat k"
        using q by (simp add: pos_divide_less_eq mult.commute)
      then show ?thesis using False k0 fl x by (simp add: pow2_def)
    next
      case k0: False
      with False have "p * 2 ^ nat (- k) < q" by simp
      then have "(of_int p :: rat) * 2 ^ nat (- k) < of_int q"
        by (metis of_int_less_iff of_int_mult of_int_numeral of_int_power)
      then have "of_int p / of_int q < 1 / (2::rat) ^ nat (- k)"
        using q by (simp add: pos_divide_less_eq pos_less_divide_eq mult.commute)
      then show ?thesis using False k0 fl x by (simp add: pow2_def)
    qed
  qed
qed

lemma floor_log2_unique:
  assumes "pow2 e \<le> x" "x < pow2 (e + 1)"
  shows "floor_log2 x = e"
proof -
  have x0: "0 < x" using assms(1) pow2_pos[of e] by linarith
  have "pow2 (floor_log2 x) < pow2 (e + 1)"
    using floor_log2_le[OF x0] assms(2) by linarith
  then have 1: "floor_log2 x \<le> e"
    using pow2_mono[of "e + 1" "floor_log2 x"] by (cases "floor_log2 x \<le> e") auto
  have "pow2 e < pow2 (floor_log2 x + 1)"
    using floor_log2_less[OF x0] assms(1) by linarith
  then have 2: "e \<le> floor_log2 x"
    using pow2_mono[of "floor_log2 x + 1" e] by (cases "e \<le> floor_log2 x") auto
  from 1 2 show ?thesis by simp
qed

lemma round_half_even_nearest:
  assumes "\<bar>y - of_int m\<bar> < 1 / 2"
  shows "round_half_even y = m"
proof (cases "of_int m \<le> y")
  case True
  have "y < of_int m + 1" using assms by linarith
  with True have fl: "\<lfloor>y\<rfloor> = m" by (intro floor_unique) auto
  have "y - of_int m < 1 / 2" using assms by linarith
  then show ?thesis using fl by (simp add: round_half_even_def Let_def)
next
  case False
  have "of_int (m - 1) \<le> y" "y < of_int (m - 1) + 1"
    using assms False by linarith+
  then have fl: "\<lfloor>y\<rfloor> = m - 1" by (intro floor_unique)
  have "1 / 2 < y - of_int (m - 1)" using assms False by linarith
  then show ?thesis using fl by (simp add: round_half_even_def Let_def)
qed

text \<open>
  A positive \<open>x\<close> in the binade of exponent \<open>e\<close> rounds to the multiple \<open>m * 2^(e - 52)\<close>
  that is nearer than half a unit.
\<close>

lemma round_double_nearest:
  assumes "pow2 e \<le> x" "x < pow2 (e + 1)" "- 1022 \<le> e"
    and "\<bar>x / pow2 (e - 52) - of_int m\<bar> < 1 / 2"
    and "of_int m * pow2 (e - 52) < 2 ^ 1024"
    and "0 \<le> m"
  shows "round_double x = Finite (of_int m * pow2 (e - 52))"
proof -
  have x0: "0 < x" using assms(1) pow2_pos[of e] by linarith
  have fl: "floor_log2 x = e" using floor_log2_unique[OF assms(1,2)] .
  have m: "max e (- 1022) = e" using assms(3) by simp
  have r: "round_half_even (x / pow2 (e - 52)) = m"
    using assms(4) by (rule round_half_even_nearest)
  have "0 \<le> of_int m * pow2 (e - 52)" using assms(6) pow2_pos[of "e - 52"] by simp
  then have "\<not> 2 ^ 1024 \<le> \<bar>of_int m * pow2 (e - 52)\<bar>" using assms(5) by simp
  then show ?thesis
    using x0 by (simp add: round_double_def Let_def abs_of_pos[OF x0] fl m r)
qed

section \<open>Balanced stableswap pools\<close>

lemma get_ann_cases: "get_ann self = 300 \<or> get_ann self = 150"
  by (cases "variant self") (simp_all add: get_ann_def amp_def)

lemma get_d_loop_stops_at_once:
  assumes "d_step powf ann s ra rb (PyInt s) = Inr (PyFloat (Finite v))"
    and "\<bar>v - of_int s\<bar> \<le> 7 / 8" and "\<bar>s\<bar> \<le> 2 ^ 53"
  shows "get_d_loop powf ann s ra rb (Suc n) (PyInt s) = Inr (PyFloat (Finite v))"
proof -
  have "\<bar>v - of_int s\<bar> \<le> 1" using assms(2) by linarith
  then obtain z where z: "round_double (v - of_int s) = Finite z"
    "\<bar>z - (v - of_int s)\<bar> \<le> 1 / 2 ^ 53"
    using round_double_abs_small by blast
  have "\<bar>z\<bar> \<le> 7 / 8 + 1 / 2 ^ 53" using z(2) assms(2) by linarith
  then have z1: "\<bar>z\<bar> < 1" by simp
  have "py_sub (PyFloat (Finite v)) (PyInt s) = Inr (PyFloat (Finite z))"
    using int_to_double_exact[OF assms(3)] z(1) by (simp add: bindE_def fsub_def)
  then show ?thesis using assms(1) z1 by (simp add: bindE_def)
qed

lemma get_d_balanced_near:
  assumes "stable_reserve_a self = r" "stable_reserve_b self = r" "0 < r" "r \<le> 2 ^ 49"
  shows "\<exists>v. get_d powf self = Inr (PyFloat (Finite v)) \<and> \<bar>v - of_int (2 * r)\<bar> \<le> 7 / 8
           \<and> d_iterate powf (get_ann self) (r + r) r r (PyInt (r + r)) 1 = Inr (PyFloat (Finite v))"
proof -
  have a: "2 \<le> get_ann self" "get_ann self \<le> 300" using get_ann_cases[of self] by auto
  obtain v where v: "d_step powf (get_ann self) (r + r) r r (PyInt (r + r)) = Inr (PyFloat (Finite v))"
    "\<bar>v - of_int (2 * r)\<bar> \<le> 7 / 8"
    using d_step_balanced_near[OF assms(3,4) a] by blast
  have v': "\<bar>v - of_int (r + r)\<bar> \<le> 7 / 8" using v(2) by simp
  have s: "\<bar>r + r\<bar> \<le> 2 ^ 53" using assms(3,4) by simp
  have e: "(256::nat) = Suc 255" by simp
  have "get_d_loop powf (get_ann self) (r + r) r r 256 (PyInt (r + r)) = Inr (PyFloat (Finite v))"
    unfolding e by (rule get_d_loop_stops_at_once[OF v(1) v' s])
  then have "get_d powf self = Inr (PyFloat (Finite v))"
    using assms(1,2,3) by (simp add: get_d_def)
  moreover have "d_iterate powf (get_ann self) (r + r) r r (PyInt (r + r)) 1
                   = Inr (PyFloat (Finite v))"
    using v(1) by (simp add: bindE_def)
  ultimately show ?thesis using v(2) by blast
qed

lemma get_d_balanced_exact:
  assumes "stable_reserve_a self = r" "stable_reserve_b self = r" "0 < r"
    and "(get_ann self + 2) * 4 * r\<^sup>2 \<le> 2 ^ 53"
  shows "get_d powf self = Inr (PyFloat (Finite (of_int (2 * r))))"
proof -
  have a: "1 \<le> get_ann self" using get_ann_cases[of self] by auto
  have st: "d_step powf (get_ann self) (r + r) r r (PyInt (r + r))
              = Inr (PyFloat (Finite (of_int (2 * r))))"
    by (rule d_step_balanced_exact[OF assms(3) a assms(4)])
  have "4 * r \<le> (get_ann self + 2) * 4 * r"
    using a assms(3) by simp
  also have "\<dots> \<le> (get_ann self + 2) * 4 * r\<^sup>2"
    using a assms(3) by (simp add: power2_eq_square)
  finally have s: "\<bar>r + r\<bar> \<le> 2 ^ 53" using assms(3,4) by simp
  have n: "\<bar>(of_int (2 * r) :: rat) - of_int (r + r)\<bar> \<le> 7 / 8" by simp
  have e: "(256::nat) = Suc 255" by simp
  have "get_d_loop powf (get_ann self) (r + r) r r 256 (PyInt (r + r))
          = Inr (PyFloat (Finite (of_int (2 * r))))"
    unfolding e by (rule get_d_loop_stops_at_once[OF st n s])
  then show ?thesis using assms(1,2,3) by (simp add: get_d_def)
qed

section \<open>Tracing single passes of the solver\<close>

text \<open>
  A value exactly half-way between two neighbouring doubles rounds to the one with the
  even significand.
\<close>

lemma round_half_even_tie:
  assumes "y = of_int m + 1 / 2" "even m'" "m' = m \<or> m' = m + 1"
  shows "round_half_even y = m'"
proof -
  have "of_int m \<le> y" "y < of_int m + 1" using assms(1) by simp_all
  then have fl: "\<lfloor>y\<rfloor> = m" by (intro floor_unique)
  have r: "y - of_int m = 1 / 2" using assms(1) by simp
  have e: "(if even m then m else m + 1) = m'" using assms(2,3) by auto
  have "round_half_even y =
      (if y - of_int m < 1 / 2 then m else if 1 / 2 < y - of_int m then m + 1
       else if even m then m else m + 1)"
    unfolding round_half_even_def Let_def fl ..
  also have "\<dots> = (if even m then m else m + 1)" unfolding r by simp
  finally show ?thesis using e by simp
qed

lemma round_double_tie:
  assumes "pow2 e \<le> x" "x < pow2 (e + 1)" "- 1022 \<le> e"
    and "x / pow2 (e - 52) = of_int m + 1 / 2" and "even m'" and "m' = m \<or> m' = m + 1"
    and "of_int m' * pow2 (e - 52) < 2 ^ 1024"
    and "0 \<le> m'"
  shows "round_double x = Finite (of_int m' * pow2 (e - 52))"
proof -
  have x0: "0 < x" using assms(1) pow2_pos[of e] by linarith
  have fl: "floor_log2 x = e" using floor_log2_unique[OF assms(1,2)] .
  have m: "max e (- 1022) = e" using assms(3) by simp
  have r: "round_half_even (x / pow2 (e - 52)) = m'"
    using assms(4,5,6) by (rule round_half_even_tie)
  have "0 \<le> of_int m' * pow2 (e - 52)" using assms(8) pow2_pos[of "e - 52"] by simp
  then have "\<not> 2 ^ 1024 \<le> \<bar>of_int m' * pow2 (e - 52)\<bar>" using assms(7) by simp
  then show ?thesis
    using x0 by (simp add: round_double_def Let_def abs_of_pos[OF x0] fl m r)
qed

text \<open>
  The first pass of \<^verbatim>\<open>_get_d\<close>, where \<^verbatim>\<open>d\<close> is still the \<^verbatim>\<open>int\<close> \<open>s\<close>, and a later pass,
  where it is a float, spelled out operation by operation.
\<close>

lemma d_step_int_trace:
  assumes "int_true_divide (s ^ 3) (2 ^ nat 2 * ra * rb) = Inr (Finite dp)"
    and "fmul (Finite dp) (Finite 2) = Finite t1"
    and "int_to_double (ann * s) = Inr (Finite A)"
    and "fadd (Finite A) (Finite t1) = Finite t2"
    and "int_to_double s = Inr (Finite D)"
    and "fmul (Finite D) (Finite t2) = Finite num"
    and "int_to_double ((ann - 1) * s) = Inr (Finite T)"
    and "fmul (Finite 3) (Finite dp) = Finite t4"
    and "fadd (Finite T) (Finite t4) = Finite den"
    and "den \<noteq> 0"
    and "fdiv (Finite num) (Finite den) = Finite v"
  shows "d_step powf ann s ra rb (PyInt s) = Inr (PyFloat (Finite v))"
proof -
  have c2: "int_to_double 2 = Inr (Finite 2)" using int_to_double_exact[of 2] by simp
  have c3: "int_to_double 3 = Inr (Finite 3)" using int_to_double_exact[of 3] by simp
  show ?thesis
    using assms c2 c3 by (simp add: d_step_def bindE_def float_div_def)
qed

lemma d_step_float_trace:
  assumes "float_pow powf (Finite d) 3 = Inr (Finite d3)"
    and "int_to_double (2 ^ nat 2 * ra * rb) = Inr (Finite Q)"
    and "Q \<noteq> 0"
    and "fdiv (Finite d3) (Finite Q) = Finite dp"
    and "fmul (Finite dp) (Finite 2) = Finite t1"
    and "int_to_double (ann * s) = Inr (Finite A)"
    and "fadd (Finite A) (Finite t1) = Finite t2"
    and "fmul (Finite d) (Finite t2) = Finite num"
    and "int_to_double (ann - 1) = Inr (Finite a1)"
    and "fmul (Finite a1) (Finite d) = Finite t3"
    and "fmul (Finite 3) (Finite dp) = Finite t4"
    and "fadd (Finite t3) (Finite t4) = Finite den"
    and "den \<noteq> 0"
    and "fdiv (Finite num) (Finite den) = Finite v"
  shows "d_step powf ann s ra rb (PyFloat (Finite d)) = Inr (PyFloat (Finite v))"
proof -
  have c2: "int_to_double 2 = Inr (Finite 2)" using int_to_double_exact[of 2] by simp
  have c3: "int_to_double 3 = Inr (Finite 3)" using int_to_double_exact[of 3] by simp
  show ?thesis
    using assms c2 c3 by (simp add: d_step_def bindE_def float_div_def)
qed

text \<open>One pass of the loop of \<^verbatim>\<open>_get_d\<close>: it returns, or it goes on with the new value.\<close>

lemma get_d_loop_returns:
  assumes "d_step powf ann s ra rb d_prev = Inr d" and "py_sub d d_prev = Inr diff"
    and "py_less_int (py_abs diff) 1"
  shows "get_d_loop powf ann s ra rb (Suc n) d_prev = Inr d"
  using assms by (simp add: bindE_def)

lemma get_d_loop_goes_on:
  assumes "d_step powf ann s ra rb d_prev = Inr d" and "py_sub d d_prev = Inr diff"
    and "\<not> py_less_int (py_abs diff) 1"
  shows "get_d_loop powf ann s ra rb (Suc n) d_prev = get_d_loop powf ann s ra rb n d"
  using assms by (simp add: bindE_def)







section \<open>The solver on balanced pools\<close>

text \<open>
  Claim C5, as stated, for every balanced pool. It fails on the common-variant pool with
  1896269778531313 on both sides: the first pass of \<open>get_d\<close> yields
  \<open>2 * reserve_a + 1\<close>, which is not within the tolerance of its predecessor, the second
  pass yields the same value again and the loop stops there. The result differs from
  \<open>2 * reserve_a\<close> by exactly 1, not by less than 1. The proof replays the two passes
  operation by operation.
\<close>

theorem get_d_balanced_counterexample:
  "get_d pow_rounded (stable_pool Common 1896269778531313 1896269778531313) = Inr (PyFloat (Finite 3792539557062627))
   \<and> \<not> \<bar>(3792539557062627 :: rat) - of_int (2 * 1896269778531313)\<bar> < 1"
proof -
  have a_dp: "int_true_divide (3792539557062626 ^ 3) (2 ^ nat 2 * 1896269778531313 * 1896269778531313) = Inr (Finite 3792539557062626)"
  proof -
    have "round_double (of_int (3792539557062626 ^ 3) / of_int (2 ^ nat 2 * 1896269778531313 * 1896269778531313)) = Finite (of_int 7585079114125252 * pow2 (51 - 52))"
      by (rule round_double_nearest) (simp_all add: pow2_def)
    then show ?thesis by (simp add: pow2_def int_true_divide_def)
  qed
  have a_t1: "fmul (Finite 3792539557062626) (Finite 2) = Finite 7585079114125252"
  proof -
    have "round_double (3792539557062626 * 2) = Finite (of_int 7585079114125252 * pow2 (52 - 52))"
      by (rule round_double_nearest) (simp_all add: pow2_def)
    then show ?thesis by (simp add: pow2_def)
  qed
  have a_A: "int_to_double (150 * 3792539557062626) = Inr (Finite 568880933559393920)"
  proof -
    have "round_double (of_int (150 * 3792539557062626)) = Finite (of_int 8888764586865530 * pow2 (58 - 52))"
      by (rule round_double_nearest) (simp_all add: pow2_def)
    then show ?thesis by (simp add: pow2_def int_to_double_def)
  qed
  have a_t2: "fadd (Finite 568880933559393920) (Finite 7585079114125252) = Finite 576466012673519232"
  proof -
    have "round_double (568880933559393920 + 7585079114125252) = Finite (of_int 4503640724011869 * pow2 (59 - 52))"
      by (rule round_double_nearest) (simp_all add: pow2_def)
    then show ?thesis by (simp add: pow2_def)
  qed
  have a_D: "int_to_double 3792539557062626 = Inr (Finite 3792539557062626)"
  proof -
    have "round_double (of_int 3792539557062626) = Finite (of_int 7585079114125252 * pow2 (51 - 52))"
      by (rule round_double_nearest) (simp_all add: pow2_def)
    then show ?thesis by (simp add: pow2_def int_to_double_def)
  qed
  have a_num: "fmul (Finite 3792539557062626) (Finite 576466012673519232) = Finite 2186270156366486768711162025476096"
  proof -
    have "round_double (3792539557062626 * 576466012673519232) = Finite (of_int 7585148330152859 * pow2 (110 - 52))"
      by (rule round_double_nearest) (simp_all add: pow2_def)
    then show ?thesis by (simp add: pow2_def)
  qed
  have a_T: "int_to_double ((150 - 1) * 3792539557062626) = Inr (Finite 565088394002331264)"
  proof -
    have "round_double (of_int ((150 - 1) * 3792539557062626)) = Finite (of_int 8829506156286426 * pow2 (58 - 52))"
      by (rule round_double_nearest) (simp_all add: pow2_def)
    then show ?thesis by (simp add: pow2_def int_to_double_def)
  qed
  have a_t4: "fmul (Finite 3) (Finite 3792539557062626) = Finite 11377618671187878"
  proof -
    have "round_double (3 * 3792539557062626) = Finite (of_int 5688809335593939 * pow2 (53 - 52))"
      by (rule round_double_nearest) (simp_all add: pow2_def)
    then show ?thesis by (simp add: pow2_def)
  qed
  have a_den: "fadd (Finite 565088394002331264) (Finite 11377618671187878) = Finite 576466012673519104"
  proof -
    have "round_double (565088394002331264 + 11377618671187878) = Finite (of_int 4503640724011868 * pow2 (59 - 52))"
      by (rule round_double_nearest) (simp_all add: pow2_def)
    then show ?thesis by (simp add: pow2_def)
  qed
  have a_v: "fdiv (Finite 2186270156366486768711162025476096) (Finite 576466012673519104) = Finite 3792539557062627"
  proof -
    have "round_double (2186270156366486768711162025476096 / 576466012673519104) = Finite (of_int 7585079114125254 * pow2 (51 - 52))"
      by (rule round_double_nearest) (simp_all add: pow2_def)
    then show ?thesis by (simp add: pow2_def)
  qed
  have a_den0: "(576466012673519104::rat) \<noteq> 0" by simp
  have st1: "d_step pow_rounded 150 3792539557062626 1896269778531313 1896269778531313 (PyInt 3792539557062626) = Inr (PyFloat (Finite 3792539557062627))"
    by (rule d_step_int_trace[OF a_dp a_t1 a_A a_t2 a_D a_num a_T a_t4 a_den a_den0 a_v])
  have b2_d3: "float_pow pow_rounded (Finite 3792539557062627) 3 = Inr (Finite 54549447700298678230916164170233096096612089856)"
  proof -
    have "round_double (3792539557062627 ^ 3) = Finite (of_int 5378990836520482 * pow2 (155 - 52))"
      by (rule round_double_nearest) (simp_all add: pow2_def)
    then show ?thesis by (simp add: pow2_def pow_rounded_def)
  qed
  have b2_Q: "int_to_double (2 ^ nat 2 * 1896269778531313 * 1896269778531313) = Inr (Finite 14383356291884778765752597479424)"
  proof -
    have "round_double (of_int (2 ^ nat 2 * 1896269778531313 * 1896269778531313)) = Finite (of_int 6387493330655038 * pow2 (103 - 52))"
      by (rule round_double_nearest) (simp_all add: pow2_def)
    then show ?thesis by (simp add: pow2_def int_to_double_def)
  qed
  have b2_dp: "fdiv (Finite 54549447700298678230916164170233096096612089856) (Finite 14383356291884778765752597479424) = Finite 3792539557062629"
  proof -
    have "round_double (54549447700298678230916164170233096096612089856 / 14383356291884778765752597479424) = Finite (of_int 7585079114125258 * pow2 (51 - 52))"
      by (rule round_double_nearest) (simp_all add: pow2_def)
    then show ?thesis by (simp add: pow2_def)
  qed
  have b2_t1: "fmul (Finite 3792539557062629) (Finite 2) = Finite 7585079114125258"
  proof -
    have "round_double (3792539557062629 * 2) = Finite (of_int 7585079114125258 * pow2 (52 - 52))"
      by (rule round_double_nearest) (simp_all add: pow2_def)
    then show ?thesis by (simp add: pow2_def)
  qed
  have b2_A: "int_to_double (150 * 3792539557062626) = Inr (Finite 568880933559393920)"
  proof -
    have "round_double (of_int (150 * 3792539557062626)) = Finite (of_int 8888764586865530 * pow2 (58 - 52))"
      by (rule round_double_nearest) (simp_all add: pow2_def)
    then show ?thesis by (simp add: pow2_def int_to_double_def)
  qed
  have b2_t2: "fadd (Finite 568880933559393920) (Finite 7585079114125258) = Finite 576466012673519232"
  proof -
    have "round_double (568880933559393920 + 7585079114125258) = Finite (of_int 4503640724011869 * pow2 (59 - 52))"
      by (rule round_double_nearest) (simp_all add: pow2_def)
    then show ?thesis by (simp add: pow2_def)
  qed
  have b2_num: "fmul (Finite 3792539557062627) (Finite 576466012673519232) = Finite 2186270156366487345171914328899584"
  proof -
    have "round_double (3792539557062627 * 576466012673519232) = Finite (of_int 7585148330152861 * pow2 (110 - 52))"
      by (rule round_double_nearest) (simp_all add: pow2_def)
    then show ?thesis by (simp add: pow2_def)
  qed
  have b2_a1: "int_to_double (150 - 1) = Inr (Finite 149)"
  proof -
    have "round_double (of_int (150 - 1)) = Finite (of_int 5242471441235968 * pow2 (7 - 52))"
      by (rule round_double_nearest) (simp_all add: pow2_def)
    then show ?thesis by (simp add: pow2_def int_to_double_def)
  qed
  have b2_t3: "fmul (Finite 149) (Finite 3792539557062627) = Finite 565088394002331392"
  proof -
    have "round_double (149 * 3792539557062627) = Finite (of_int 8829506156286428 * pow2 (58 - 52))"
      by (rule round_double_nearest) (simp_all add: pow2_def)
    then show ?thesis by (simp add: pow2_def)
  qed
  have b2_t4: "fmul (Finite 3) (Finite 3792539557062629) = Finite 11377618671187888"
  proof -
    have "round_double (3 * 3792539557062629) = Finite (of_int 5688809335593944 * pow2 (53 - 52))"
      by (rule round_double_tie[where m = 5688809335593943]) (simp_all add: pow2_def)
    then show ?thesis by (simp add: pow2_def)
  qed
  have b2_den: "fadd (Finite 565088394002331392) (Finite 11377618671187888) = Finite 576466012673519232"
  proof -
    have "round_double (565088394002331392 + 11377618671187888) = Finite (of_int 4503640724011869 * pow2 (59 - 52))"
      by (rule round_double_nearest) (simp_all add: pow2_def)
    then show ?thesis by (simp add: pow2_def)
  qed
  have b2_v: "fdiv (Finite 2186270156366487345171914328899584) (Finite 576466012673519232) = Finite 3792539557062627"
  proof -
    have "round_double (2186270156366487345171914328899584 / 576466012673519232) = Finite (of_int 7585079114125254 * pow2 (51 - 52))"
      by (rule round_double_nearest) (simp_all add: pow2_def)
    then show ?thesis by (simp add: pow2_def)
  qed
  have b2_Q0: "(14383356291884778765752597479424::rat) \<noteq> 0" by simp
  have b2_den0: "(576466012673519232::rat) \<noteq> 0" by simp
  have st2: "d_step pow_rounded 150 3792539557062626 1896269778531313 1896269778531313 (PyFloat (Finite 3792539557062627)) = Inr (PyFloat (Finite 3792539557062627))"
    by (rule d_step_float_trace[OF b2_d3 b2_Q b2_Q0 b2_dp b2_t1 b2_A b2_t2 b2_num b2_a1 b2_t3 b2_t4 b2_den b2_den0 b2_v])
  have c: "int_to_double 3792539557062626 = Inr (Finite 3792539557062626)"
    using int_to_double_exact[of 3792539557062626] by simp
  have r1: "round_double 1 = Finite 1" using round_double_of_int[of 1] by simp
  have r0: "round_double 0 = Finite 0" using round_double_of_int[of 0] by simp
  have sub1: "py_sub (PyFloat (Finite 3792539557062627)) (PyInt 3792539557062626) = Inr (PyFloat (Finite 1))"
    using c r1 by (simp add: bindE_def fsub_def)
  have sub2: "py_sub (PyFloat (Finite 3792539557062627)) (PyFloat (Finite 3792539557062627)) = Inr (PyFloat (Finite 0))"
    using r0 by (simp add: bindE_def fsub_def)
  have n1: "\<not> py_less_int (py_abs (PyFloat (Finite 1))) 1" by simp
  have n2: "py_less_int (py_abs (PyFloat (Finite 0))) 1" by simp
  have e: "(256::nat) = Suc (Suc 254)" by simp
  have "get_d_loop pow_rounded 150 3792539557062626 1896269778531313 1896269778531313 256 (PyInt 3792539557062626)
          = get_d_loop pow_rounded 150 3792539557062626 1896269778531313 1896269778531313 (Suc 254) (PyFloat (Finite 3792539557062627))"
    unfolding e by (rule get_d_loop_goes_on[OF st1 sub1 n1])
  also have "\<dots> = Inr (PyFloat (Finite 3792539557062627))"
    by (rule get_d_loop_returns[OF st2 sub2 n2])
  finally have "get_d_loop pow_rounded 150 3792539557062626 1896269778531313 1896269778531313 256 (PyInt 3792539557062626)
                  = Inr (PyFloat (Finite 3792539557062627))" .
  then show ?thesis
    by (simp add: get_d_def stable_pool_def get_ann_def amp_def stable_reserve_a_def
        stable_reserve_b_def)
qed

text \<open>
  Claim C5, for reserves up to \<open>2^49\<close>. On a stableswap pool of either variant whose
  multiplied reserves are equal, positive and at most \<open>2^49\<close>, \<open>get_d\<close> returns a float
  \<open>v\<close> that differs from \<open>2 * reserve_a\<close> by less than 1, for every library \<^verbatim>\<open>pow\<close>; \<open>v\<close>
  is the first iterate, so the loop stops after one pass, and it is what \<open>compute_D\<close>
  yields. Where \<open>(ann + 2) * 4 * reserve_a\<^sup>2\<close> is at most \<open>2^53\<close> no operation rounds and
  \<open>v\<close> is \<open>2 * reserve_a\<close> itself.
\<close>

theorem get_d_balanced:
  assumes "stable_reserve_a self = stable_reserve_b self"
    and "0 < stable_reserve_a self" and "stable_reserve_a self \<le> 2 ^ 49"
  shows "\<exists>v. get_d powf self = Inr (PyFloat (Finite v))
           \<and> compute_D powf (get_ann self) (stable_reserve_a self) (stable_reserve_b self)
               = Inr (PyFloat (Finite v))
           \<and> d_iterate powf (get_ann self) (stable_reserve_a self + stable_reserve_b self)
                (stable_reserve_a self) (stable_reserve_b self)
                (PyInt (stable_reserve_a self + stable_reserve_b self)) 1
               = Inr (PyFloat (Finite v))
           \<and> \<bar>v - of_int (2 * stable_reserve_a self)\<bar> < 1
           \<and> ((get_ann self + 2) * 4 * (stable_reserve_a self)\<^sup>2 \<le> 2 ^ 53
                \<longrightarrow> v = of_int (2 * stable_reserve_a self))"
proof -
  define r where "r = stable_reserve_a self"
  have a: "stable_reserve_a self = r" and b: "stable_reserve_b self = r"
    using assms(1) by (simp_all add: r_def)
  have r: "0 < r" "r \<le> 2 ^ 49" using assms(2,3) by (simp_all add: r_def)
  obtain v where v: "get_d powf self = Inr (PyFloat (Finite v))"
    "\<bar>v - of_int (2 * r)\<bar> \<le> 7 / 8"
    "d_iterate powf (get_ann self) (r + r) r r (PyInt (r + r)) 1 = Inr (PyFloat (Finite v))"
    using get_d_balanced_near[OF a b r, of powf] by blast
  have c: "compute_D powf (get_ann self) r r = Inr (PyFloat (Finite v))"
    using get_d_refines_compute_D[of powf self] v(1) by (simp add: a b)
  have n: "\<bar>v - of_int (2 * r)\<bar> < 1" using v(2) by linarith
  have x: "v = of_int (2 * r)" if "(get_ann self + 2) * 4 * r\<^sup>2 \<le> 2 ^ 53"
    using get_d_balanced_exact[OF a b r(1) that, of powf] v(1) by simp
  show ?thesis
    unfolding a b using v(1) c v(3) n x by blast
qed

text \<open>
  The hypotheses of C5 hold for the two pools with 1000 on both sides, one of each
  variant; there \<open>get_d\<close> returns 2000.0.
\<close>

theorem get_d_balanced_witness:
  "get_d pow_rounded (stable_pool Standard 1000 1000) = Inr (PyFloat (Finite 2000))
   \<and> get_d pow_rounded (stable_pool Common 1000 1000) = Inr (PyFloat (Finite 2000))"
proof -
  have ra: "stable_reserve_a (stable_pool v 1000 1000) = 1000" for v
    by (simp add: stable_pool_def stable_reserve_a_def)
  have rb: "stable_reserve_b (stable_pool v 1000 1000) = 1000" for v
    by (simp add: stable_pool_def stable_reserve_b_def)
  have 1: "stable_reserve_a (stable_pool v 1000 1000) = stable_reserve_b (stable_pool v 1000 1000)"
    for v by (simp add: ra rb)
  have 2: "0 < stable_reserve_a (stable_pool v 1000 1000)" for v by (simp add: ra)
  have 3: "stable_reserve_a (stable_pool v 1000 1000) \<le> 2 ^ 49" for v by (simp add: ra)
  have 4: "(get_ann (stable_pool v 1000 1000) + 2) * 4 * (stable_reserve_a (stable_pool v 1000 1000))\<^sup>2
             \<le> 2 ^ 53" for v
    using get_ann_cases[of "stable_pool v 1000 1000"] by (auto simp add: ra)
  have "get_d pow_rounded (stable_pool v 1000 1000) = Inr (PyFloat (Finite 2000))" for v
    using get_d_balanced[OF 1 2 3, of pow_rounded v] 4[of v] by (auto simp add: ra)
  then show ?thesis by simp
qed

section \<open>The two stableswap variants\<close>














section \<open>The checks of the number of units\<close>




end
